theory Spec2Isabelle
  imports Complex_Main "HOL-Library.Word"
begin

section \<open>JavaScript strings\<close>

text \<open>
  A JavaScript string is a sequence of 16-bit code units; \<open>length\<close>, \<open>slice\<close>,
  \<open>startsWith\<close> and the regular expressions of \<^verbatim>\<open>sync.mjs\<close> (none has the \<^verbatim>\<open>u\<close> flag)
  all count and compare code units. \<open>js\<close> turns an ASCII literal into such a string.
\<close>

type_synonym jschar = "16 word"
type_synonym jsstring = "jschar list"

definition js :: "string \<Rightarrow> jsstring" where
  "js s = map (\<lambda>c. word_of_nat (of_char c)) s"

definition CHAR_FORWARD_SLASH :: jschar where "CHAR_FORWARD_SLASH = 47"
definition CHAR_DOT :: jschar where "CHAR_DOT = 46"
definition CHAR_LF :: jschar where "CHAR_LF = 10"

text \<open>
  The class \<^verbatim>\<open>\s\<close> of an ECMAScript regular expression, which is also what
  \<^verbatim>\<open>String.prototype.trim\<close> strips: WhiteSpace and LineTerminator code points.
\<close>

definition is_space :: "jschar \<Rightarrow> bool" where
  "is_space c \<longleftrightarrow>
     c = 9 \<or> c = 10 \<or> c = 11 \<or> c = 12 \<or> c = 13 \<or> c = 32 \<or> c = 160 \<or> c = 0x1680 \<or>
     (0x2000 \<le> c \<and> c \<le> 0x200A) \<or> c = 0x2028 \<or> c = 0x2029 \<or> c = 0x202F \<or>
     c = 0x205F \<or> c = 0x3000 \<or> c = 0xFEFF"

text \<open>
  \<^verbatim>\<open>s.slice(start, end)\<close>: a negative index counts from the end, both are clamped
  to the string, and the result is empty when the start is not before the end. The
  number \<^verbatim>\<open>-0\<close> is \<open>0\<close>.
\<close>

definition js_slice :: "jsstring \<Rightarrow> int \<Rightarrow> int \<Rightarrow> jsstring" where
  "js_slice s start end =
     (let len = int (length s);
          from = (if start < 0 then max (len + start) 0 else min start len);
          to = (if end < 0 then max (len + end) 0 else min end len)
      in take (nat (to - from)) (drop (nat from) s))"

definition startsWith :: "jsstring \<Rightarrow> jsstring \<Rightarrow> bool" where
  "startsWith s p \<longleftrightarrow> take (length p) s = p"

definition trim :: "jsstring \<Rightarrow> jsstring" where
  "trim s = rev (dropWhile is_space (rev (dropWhile is_space s)))"

text \<open>\<^verbatim>\<open>s.split(sep)\<close> for a separator of one code unit: the pieces between the separators,
  of which there is always at least one.\<close>

fun split_on :: "jschar \<Rightarrow> jsstring \<Rightarrow> jsstring list" where
  "split_on sep [] = [[]]"
| "split_on sep (c # s) =
     (if c = sep then [] # split_on sep s
      else (case split_on sep s of [] \<Rightarrow> [[c]] | l # ls \<Rightarrow> (c # l) # ls))"

section \<open>The path functions of Node (POSIX flavour)\<close>

text \<open>
  \<^verbatim>\<open>path.extname\<close>, \<^verbatim>\<open>path.basename\<close> and \<^verbatim>\<open>path.dirname\<close> belong to the Node
  runtime; they are transcribed from its \<^verbatim>\<open>lib/path.js\<close> (the \<^verbatim>\<open>posix\<close> object), loop
  by loop: an index that runs from the end of the string to its start, and the
  variables of the loop as a record. The value \<open>-1\<close> of the JavaScript variables is
  kept, so the indices are integers.
\<close>

record ext_state =
  startDot :: int
  startPart :: int
  endIdx :: int
  matchedSlash :: bool
  preDotState :: int

fun extname_loop :: "jsstring \<Rightarrow> nat \<Rightarrow> ext_state \<Rightarrow> ext_state" where
  "extname_loop p 0 st = st"
| "extname_loop p (Suc i) st =
     (let code = p ! i in
      if code = CHAR_FORWARD_SLASH then
        (if \<not> matchedSlash st then st\<lparr>startPart := int i + 1\<rparr>
         else extname_loop p i st)
      else
        (let st1 = (if endIdx st = - 1 then st\<lparr>matchedSlash := False, endIdx := int i + 1\<rparr> else st);
             st2 = (if code = CHAR_DOT then
                      (if startDot st1 = - 1 then st1\<lparr>startDot := int i\<rparr>
                       else if preDotState st1 \<noteq> 1 then st1\<lparr>preDotState := 1\<rparr>
                       else st1)
                    else if startDot st1 \<noteq> - 1 then st1\<lparr>preDotState := - 1\<rparr>
                    else st1)
         in extname_loop p i st2))"

definition extname :: "jsstring \<Rightarrow> jsstring" where
  "extname p =
     (let st = extname_loop p (length p)
                 \<lparr>startDot = - 1, startPart = 0, endIdx = - 1, matchedSlash = True, preDotState = 0\<rparr>
      in if startDot st = - 1 \<or> endIdx st = - 1 \<or> preDotState st = 0 \<or>
            (preDotState st = 1 \<and> startDot st = endIdx st - 1 \<and> startDot st = startPart st + 1)
         then []
         else js_slice p (startDot st) (endIdx st))"

record base_state =
  b_start :: int
  b_end :: int
  b_matchedSlash :: bool

fun basename_loop :: "jsstring \<Rightarrow> nat \<Rightarrow> base_state \<Rightarrow> base_state" where
  "basename_loop p 0 st = st"
| "basename_loop p (Suc i) st =
     (if p ! i = CHAR_FORWARD_SLASH then
        (if \<not> b_matchedSlash st then st\<lparr>b_start := int i + 1\<rparr>
         else basename_loop p i st)
      else if b_end st = - 1 then
        basename_loop p i (st\<lparr>b_matchedSlash := False, b_end := int i + 1\<rparr>)
      else basename_loop p i st)"

definition basename :: "jsstring \<Rightarrow> jsstring" where
  "basename p =
     (let st = basename_loop p (length p) \<lparr>b_start = 0, b_end = - 1, b_matchedSlash = True\<rparr>
      in if b_end st = - 1 then [] else js_slice p (b_start st) (b_end st))"

text \<open>The loop of \<^verbatim>\<open>dirname\<close> stops at index 1: index 0 is never inspected.\<close>

fun dirname_loop :: "jsstring \<Rightarrow> nat \<Rightarrow> bool \<Rightarrow> int" where
  "dirname_loop p 0 ms = - 1"
| "dirname_loop p (Suc i) ms =
     (if i < 1 then - 1
      else if p ! i = CHAR_FORWARD_SLASH then
        (if \<not> ms then int i else dirname_loop p i ms)
      else dirname_loop p i False)"

definition dirname :: "jsstring \<Rightarrow> jsstring" where
  "dirname p =
     (if p = [] then js ''.''
      else
        (let hasRoot = (p ! 0 = CHAR_FORWARD_SLASH);
             e = dirname_loop p (length p) True
         in if e = - 1 then (if hasRoot then js ''/'' else js ''.'')
            else if hasRoot \<and> e = 1 then js ''//''
            else js_slice p 0 e))"

section \<open>The name normalizer\<close>

text \<open>
  \<^verbatim>\<open>s.replace(/c/g, r)\<close> for a pattern that matches one code unit: every code unit
  of the class is replaced by the string \<open>r\<close>, from left to right.
\<close>

definition replace_all :: "(jschar \<Rightarrow> bool) \<Rightarrow> jsstring \<Rightarrow> jsstring \<Rightarrow> jsstring" where
  "replace_all cls r s = concat (map (\<lambda>c. if cls c then r else [c]) s)"

definition slugifyBasename :: "jsstring \<Rightarrow> jsstring" where
  "slugifyBasename name =
     (let ext = extname name;
          base = js_slice name 0 (- int (length ext));
          slug = replace_all (\<lambda>c. c = 35) []
                   (replace_all (\<lambda>c. c = 63) []
                     (replace_all (\<lambda>c. c = 37) (js ''-percent'')
                       (replace_all (\<lambda>c. c = 38) (js ''-and-'')
                         (replace_all is_space (js ''-'') base))))
      in slug @ ext)"

text \<open>
  The transform rules as section 4.2 of the specification words them: the name is
  cut into the part before its extension and the extension, the rules are applied in
  order to the first part, and the extension is put back. For a name with no extension
  the first part is the whole name.
\<close>

definition transform_rules :: "jsstring \<Rightarrow> jsstring" where
  "transform_rules stem =
     replace_all (\<lambda>c. c = 35) []
       (replace_all (\<lambda>c. c = 63) []
         (replace_all (\<lambda>c. c = 37) (js ''-percent'')
           (replace_all (\<lambda>c. c = 38) (js ''-and-'')
             (replace_all is_space (js ''-'') stem))))"

definition normalize_spec :: "jsstring \<Rightarrow> jsstring" where
  "normalize_spec name =
     (let ext = extname name;
          stem = take (length name - length ext) name
      in transform_rules stem @ ext)"

text \<open>
  The two strings that \<^verbatim>\<open>run\<close> and \<^verbatim>\<open>convertContentForQuartz\<close> build from a normalized
  name with template literals: the destination path \<^verbatim>\<open>image/${slugifiedBasename}\<close> and
  the rewritten link \<^verbatim>\<open>![](../image/${slugifiedBasename})\<close>.
\<close>

definition assetDest :: "jsstring \<Rightarrow> jsstring" where
  "assetDest slugifiedBasename = js ''image/'' @ slugifiedBasename"

definition imageLink :: "jsstring \<Rightarrow> jsstring" where
  "imageLink slugifiedBasename = js ''![](../image/'' @ slugifiedBasename @ js '')''"

section \<open>Regular expressions\<close>

text \<open>
  The regular expressions of \<^verbatim>\<open>sync.mjs\<close> are sequences of the items below; every
  quantifier in them is applied to a class of single code units. \<open>rx_match\<close> is the
  backtracking matcher of ECMAScript on such sequences: a greedy quantifier tries the
  longest run first and gives code units back one at a time, a lazy one tries the
  shortest first, alternatives are tried from left to right, and the first way that lets
  the rest of the expression match is the result. It is given the index where it stands,
  the input from there on, the inputs at which the groups still open were opened, and the
  text of the groups closed so far; it returns these texts and the input left.
\<close>

datatype rx_item =
    Lit jsstring
  | Alt "jsstring list"
  | Opt jsstring
  | Many bool nat "jschar \<Rightarrow> bool"
  | Bol
  | GroupOpen
  | GroupClose
  | NotAhead "rx_item list"

fun first_some :: "('a \<Rightarrow> 'b option) \<Rightarrow> 'a list \<Rightarrow> 'b option" where
  "first_some f [] = None"
| "first_some f (x # xs) = (case f x of Some y \<Rightarrow> Some y | None \<Rightarrow> first_some f xs)"

fun rx_match ::
  "rx_item list \<Rightarrow> nat \<Rightarrow> jsstring \<Rightarrow> jsstring list \<Rightarrow> jsstring list \<Rightarrow>
   (jsstring list \<times> jsstring) option" where
  "rx_match [] pos s opn caps = Some (caps, s)"
| "rx_match (Lit l # k) pos s opn caps =
     (if startsWith s l then rx_match k (pos + length l) (drop (length l) s) opn caps
      else None)"
| "rx_match (Alt ls # k) pos s opn caps =
     first_some
       (\<lambda>l. if startsWith s l then rx_match k (pos + length l) (drop (length l) s) opn caps
            else None) ls"
| "rx_match (Opt l # k) pos s opn caps =
     (if startsWith s l then
        (case rx_match k (pos + length l) (drop (length l) s) opn caps of
           Some r \<Rightarrow> Some r
         | None \<Rightarrow> rx_match k pos s opn caps)
      else rx_match k pos s opn caps)"
| "rx_match (Many greedy mn cls # k) pos s opn caps =
     (let n = length (takeWhile cls s);
          counts = (if greedy then rev [mn ..< Suc n] else [mn ..< Suc n])
      in first_some (\<lambda>j. rx_match k (pos + j) (drop j s) opn caps) counts)"
| "rx_match (Bol # k) pos s opn caps =
     (if pos = 0 then rx_match k pos s opn caps else None)"
| "rx_match (GroupOpen # k) pos s opn caps = rx_match k pos s (s # opn) caps"
| "rx_match (GroupClose # k) pos s opn caps =
     (case opn of
        [] \<Rightarrow> None
      | s0 # opn' \<Rightarrow> rx_match k pos s opn' (caps @ [take (length s0 - length s) s0]))"
| "rx_match (NotAhead la # k) pos s opn caps =
     (case rx_match la pos s opn caps of
        Some r \<Rightarrow> None
      | None \<Rightarrow> rx_match k pos s opn caps)"

text \<open>
  \<^verbatim>\<open>re.exec(s)\<close> with \<^verbatim>\<open>re.lastIndex = i\<close>: the start positions \<open>i, i + 1, \<dots>, length s\<close>
  are tried in turn. The result is the text of the groups and the index where the match
  ends, which a global expression stores as its next \<^verbatim>\<open>lastIndex\<close>. An expression without
  the \<^verbatim>\<open>g\<close> flag (\<^verbatim>\<open>match\<close>, \<^verbatim>\<open>test\<close>) starts at 0.
\<close>

definition rx_exec :: "rx_item list \<Rightarrow> jsstring \<Rightarrow> nat \<Rightarrow> (jsstring list \<times> nat \<times> nat) option" where
  "rx_exec re s i =
     first_some
       (\<lambda>b. case rx_match re b (drop b s) [] [] of
              None \<Rightarrow> None
            | Some (caps, rest) \<Rightarrow> Some (caps, b, length s - length rest))
       [i ..< Suc (length s)]"

text \<open>
  A lower bound of the number of code units that a match of an expression consumes: the
  literals and the least counts of the quantifiers.
\<close>

fun min_width :: "rx_item list \<Rightarrow> nat" where
  "min_width [] = 0"
| "min_width (Lit l # k) = length l + min_width k"
| "min_width (Many greedy mn cls # k) = mn + min_width k"
| "min_width (x # k) = min_width k"

text \<open>
  \<^verbatim>\<open>while ((m = re.exec(s)) !== null) ...\<close> for a global expression: the list of the
  matches' groups. A match that ends where the search began would leave \<^verbatim>\<open>lastIndex\<close>
  in place and the loop would never end; the two expressions it is used with match at
  least five code units (\<open>rx_exec_wiki_advances\<close>, \<open>rx_exec_md_advances\<close>), so that
  branch is never taken. The same holds for \<open>replace_loop\<close> below, which is used with the
  first of the two.
\<close>

function exec_loop :: "rx_item list \<Rightarrow> jsstring \<Rightarrow> nat \<Rightarrow> jsstring list list" where
  "exec_loop re s i =
     (case rx_exec re s i of
        None \<Rightarrow> []
      | Some (caps, b, e) \<Rightarrow>
          if i < e \<and> e \<le> length s then caps # exec_loop re s e else [])"
  by pat_completeness auto
termination
  by (relation "measure (\<lambda>(re, s, i). Suc (length s) - i)") auto

text \<open>
  \<^verbatim>\<open>s.replace(re, f)\<close> for a global expression: the text between the matches is kept
  and each match is replaced by \<open>f\<close> of its groups.
\<close>

function replace_loop ::
  "rx_item list \<Rightarrow> (jsstring list \<Rightarrow> jsstring) \<Rightarrow> jsstring \<Rightarrow> nat \<Rightarrow> jsstring" where
  "replace_loop re f s i =
     (case rx_exec re s i of
        None \<Rightarrow> drop i s
      | Some (caps, b, e) \<Rightarrow>
          if i < e \<and> e \<le> length s
          then take (b - i) (drop i s) @ f caps @ replace_loop re f s e
          else drop i s)"
  by pat_completeness auto
termination
  by (relation "measure (\<lambda>(re, f, s, i). Suc (length s) - i)") auto

text \<open>\<^verbatim>\<open>s.split(sep).join(r)\<close> for a non-empty \<open>sep\<close>: every occurrence of \<open>sep\<close>, found
  from left to right without overlap, is replaced by \<open>r\<close>.\<close>

function split_join :: "jsstring \<Rightarrow> jsstring \<Rightarrow> jsstring \<Rightarrow> jsstring" where
  "split_join sep r s =
     (if s = [] then []
      else if sep \<noteq> [] \<and> startsWith s sep then r @ split_join sep r (drop (length sep) s)
      else hd s # split_join sep r (tl s))"
  by pat_completeness auto
termination
  by (relation "measure (\<lambda>(sep, r, s). length s)") auto

section \<open>Publishability filter\<close>

text \<open>\<^verbatim>\<open>FRONTMATTER_REGEX = /^---\s*\n([\s\S]*?)\n---/\<close>\<close>

definition FRONTMATTER_REGEX :: "rx_item list" where
  "FRONTMATTER_REGEX =
     [Bol, Lit (js ''---''), Many True 0 is_space, Lit [CHAR_LF],
      GroupOpen, Many False 0 (\<lambda>c. True), GroupClose, Lit (CHAR_LF # js ''---'')]"

text \<open>
  \<^verbatim>\<open>PUBLISHABLE_REGEX\<close> is \<^verbatim>\<open>/(?:K1|K2)\s*:\s*true/\<close>, where \<open>K1\<close> is the three CJK
  characters U+53EF U+53D1 U+5E03 and \<open>K2\<close> is U+5DF2 U+53D1 U+5E03.
\<close>

definition KEY_PUBLISHABLE :: jsstring where "KEY_PUBLISHABLE = [0x53EF, 0x53D1, 0x5E03]"
definition KEY_PUBLISHED :: jsstring where "KEY_PUBLISHED = [0x5DF2, 0x53D1, 0x5E03]"

definition PUBLISHABLE_REGEX :: "rx_item list" where
  "PUBLISHABLE_REGEX =
     [Alt [KEY_PUBLISHABLE, KEY_PUBLISHED], Many True 0 is_space, Lit (js '':''),
      Many True 0 is_space, Lit (js ''true'')]"

definition hasPublishableFrontmatter :: "jsstring \<Rightarrow> bool" where
  "hasPublishableFrontmatter content =
     (case rx_exec FRONTMATTER_REGEX content 0 of
        None \<Rightarrow> False
      | Some (caps, b, e) \<Rightarrow> rx_exec PUBLISHABLE_REGEX (caps ! 0) 0 \<noteq> None)"

text \<open>The expression from its group on, as it is run at each candidate end of the opening
  marker.\<close>

definition fm_close :: "rx_item list" where
  "fm_close = [GroupOpen, Many False 0 (\<lambda>c. True), GroupClose, Lit (CHAR_LF # js ''---'')]"

text \<open>
  What the two expressions accept, in terms of the text alone. \<open>header_block text block\<close>:
  the text starts with \<^verbatim>\<open>---\<close>, white space and a line feed; then comes the block; the
  block is followed by a line feed and \<^verbatim>\<open>---\<close>, and this is the first line feed followed
  by \<^verbatim>\<open>---\<close> from the start of the block on. \<open>sets_true block\<close>: somewhere in the block
  stands one of the two keys, white space, a colon, white space and \<^verbatim>\<open>true\<close>.
\<close>

definition occurs_in :: "jsstring \<Rightarrow> jsstring \<Rightarrow> bool" where
  "occurs_in pat s \<longleftrightarrow> (\<exists>pre post. s = pre @ pat @ post)"

definition header_block :: "jsstring \<Rightarrow> jsstring \<Rightarrow> bool" where
  "header_block text block \<longleftrightarrow>
     (\<exists>ws rest. text = js ''---'' @ ws @ [CHAR_LF] @ block @ [CHAR_LF] @ js ''---'' @ rest \<and>
        list_all is_space ws \<and>
        \<not> occurs_in (CHAR_LF # js ''---'') (block @ CHAR_LF # js ''--''))"

definition sets_true :: "jsstring \<Rightarrow> bool" where
  "sets_true block \<longleftrightarrow>
     (\<exists>pre key s1 s2 post.
        block = pre @ key @ s1 @ js '':'' @ s2 @ js ''true'' @ post \<and>
        (key = KEY_PUBLISHABLE \<or> key = KEY_PUBLISHED) \<and>
        list_all is_space s1 \<and> list_all is_space s2)"

text \<open>
  The filter as the specification words it, line by line. The text is cut into lines at
  the line feeds. A marker line is the line \<^verbatim>\<open>---\<close>. The header block is opened by a
  marker line that is the first line of the text and closed by the next marker line; its
  lines are the lines in between. A line sets a key to true when it is, white space at its
  ends and around the colon apart, one of the two keys, a colon and \<^verbatim>\<open>true\<close>. The text is
  publishable when it has a header block and a line of the block sets a key to true.
\<close>

definition is_marker_line :: "jsstring \<Rightarrow> bool" where
  "is_marker_line l \<longleftrightarrow> l = js ''---''"

definition sets_key_true :: "jsstring \<Rightarrow> bool" where
  "sets_key_true l \<longleftrightarrow>
     (let t = trim l in
      list_ex (\<lambda>key. startsWith t key \<and>
                 (let r = dropWhile is_space (drop (length key) t)
                  in startsWith r (js '':'') \<and> dropWhile is_space (drop 1 r) = js ''true''))
        [KEY_PUBLISHABLE, KEY_PUBLISHED])"

definition claimed_publishable :: "jsstring \<Rightarrow> bool" where
  "claimed_publishable text \<longleftrightarrow>
     (case split_on CHAR_LF text of
        [] \<Rightarrow> False
      | first # rest \<Rightarrow>
          is_marker_line first \<and>
          (let header = takeWhile (\<lambda>l. \<not> is_marker_line l) rest
           in length header < length rest \<and> list_ex sets_key_true header))"

text \<open>A note whose header block is one empty line and whose body sets the key and then
  holds a rule: \<^verbatim>\<open>---\<close>, an empty line, \<^verbatim>\<open>---\<close>, the key line, \<^verbatim>\<open>---\<close>.\<close>

definition blank_header_note :: jsstring where
  "blank_header_note =
     js ''---'' @ [CHAR_LF, CHAR_LF] @ js ''---'' @ [CHAR_LF] @ KEY_PUBLISHABLE @ js '': true'' @
     [CHAR_LF] @ js ''---''"

section \<open>Asset extraction\<close>

text \<open>\<^verbatim>\<open>WIKI_IMAGE_REGEX = /!\[\[([^\]]+)\]\]/g\<close> and
  \<^verbatim>\<open>MD_IMAGE_REGEX = /!\[[^\]]*\]\((?!https?:\/\/)([^)]+)\)/g\<close>\<close>

definition WIKI_IMAGE_REGEX :: "rx_item list" where
  "WIKI_IMAGE_REGEX =
     [Lit (js ''![[''), GroupOpen, Many True 1 (\<lambda>c. c \<noteq> 93), GroupClose, Lit (js '']]'')]"

definition MD_IMAGE_REGEX :: "rx_item list" where
  "MD_IMAGE_REGEX =
     [Lit (js ''!['') , Many True 0 (\<lambda>c. c \<noteq> 93), Lit (js ''](''),
      NotAhead [Lit (js ''http''), Opt (js ''s''), Lit (js ''://'')],
      GroupOpen, Many True 1 (\<lambda>c. c \<noteq> 41), GroupClose, Lit (js '')'')]"

text \<open>\<^verbatim>\<open>refs.add(x)\<close> on a \<^verbatim>\<open>Set\<close>, which keeps the order of first insertion.\<close>

definition set_add :: "'a list \<Rightarrow> 'a \<Rightarrow> 'a list" where
  "set_add xs x = (if x \<in> set xs then xs else xs @ [x])"

definition wiki_refs :: "jsstring \<Rightarrow> jsstring list" where
  "wiki_refs content = map (\<lambda>m. trim (m ! 0)) (exec_loop WIKI_IMAGE_REGEX content 0)"

definition md_hrefs :: "jsstring \<Rightarrow> jsstring list" where
  "md_hrefs content = map (\<lambda>m. trim (m ! 0)) (exec_loop MD_IMAGE_REGEX content 0)"

definition extractAssetRefs :: "jsstring \<Rightarrow> jsstring list" where
  "extractAssetRefs content =
     (let refs = fold (\<lambda>r refs. set_add refs r) (wiki_refs content) [];
          refs = fold (\<lambda>href refs. if \<not> startsWith href (js ''http'') then set_add refs href
                                  else refs)
                   (md_hrefs content) refs
      in refs)"

section \<open>What the runtime and the source tree answer\<close>

text \<open>
  The engine reads the source tree and asks two questions of the Node runtime that are
  not modelled further: \<^verbatim>\<open>path.join\<close> of two paths and \<^verbatim>\<open>String.prototype.toLowerCase\<close>.
  They are taken as they come, so every result below holds for any way of joining paths
  and of lowering case. Of the source tree the engine sees: the Markdown files that
  \<^verbatim>\<open>listMdFiles\<close> enumerates, each with the text \<^verbatim>\<open>fs.readFile\<close> returns and the
  \<^verbatim>\<open>mtimeMs\<close> that \<^verbatim>\<open>fs.stat\<close> returns (or the first error one of these calls raises);
  whether \<^verbatim>\<open>fs.access\<close> of a path resolves; and the names \<^verbatim>\<open>fs.readdir\<close> returns for a
  directory, or that it rejects. A modification time is a JavaScript number that is only
  ever compared with \<^verbatim>\<open>>\<close>: it is a real number here.
\<close>

type_synonym path = jsstring

datatype errno = ENOENT | EACCES | EPERM | EISDIR | ENOTDIR | ENOTEMPTY | EEXIST | EIO

record node_env =
  pjoin :: "path \<Rightarrow> path \<Rightarrow> path"
  toLowerCase :: "jsstring \<Rightarrow> jsstring"
  md_files :: "errno + (path \<times> jsstring \<times> real) list"
  access :: "path \<Rightarrow> bool"
  readdir :: "path \<Rightarrow> jsstring list option"

section \<open>Asset resolver\<close>

text \<open>
  The first loop of \<^verbatim>\<open>findAssetFile\<close>: the first candidate that \<^verbatim>\<open>fs.access\<close> accepts
  is returned. The second loop, over the names \<^verbatim>\<open>fs.readdir\<close> gave: the first name whose
  normalized, lower-cased form is \<open>wantSlug\<close>.
\<close>

fun first_accessible :: "node_env \<Rightarrow> path list \<Rightarrow> path option" where
  "first_accessible env [] = None"
| "first_accessible env (p # ps) = (if access env p then Some p else first_accessible env ps)"

fun match_by_slug :: "node_env \<Rightarrow> path \<Rightarrow> jsstring \<Rightarrow> jsstring list \<Rightarrow> path option" where
  "match_by_slug env imageDir wantSlug [] = None"
| "match_by_slug env imageDir wantSlug (f # files) =
     (if toLowerCase env (slugifyBasename f) = wantSlug then Some (pjoin env imageDir f)
      else match_by_slug env imageDir wantSlug files)"

definition findAssetFile :: "node_env \<Rightarrow> path \<Rightarrow> path \<Rightarrow> jsstring \<Rightarrow> path option" where
  "findAssetFile env obsidianDir mdDir ref =
     (let name = basename ref;
          slugified = slugifyBasename name;
          imageDir = pjoin env obsidianDir (js ''image'');
          base = pjoin env obsidianDir mdDir;
          candidates = [pjoin env imageDir name, pjoin env base ref, pjoin env imageDir slugified]
      in case first_accessible env candidates of
           Some p \<Rightarrow> Some p
         | None \<Rightarrow>
             (case readdir env imageDir of
                None \<Rightarrow> None
              | Some files \<Rightarrow> match_by_slug env imageDir (toLowerCase env slugified) files))"

section \<open>Snapshot builder\<close>

record asset =
  a_ref :: jsstring
  a_basename :: jsstring
  slugifiedBasename :: jsstring
  sourcePath :: path

record document =
  d_mtime :: real
  d_content :: jsstring
  d_assets :: "asset list"

text \<open>
  The loop over the references of one document. \<^verbatim>\<open>if (assetPath)\<close> is false for
  \<^verbatim>\<open>null\<close> and for the empty string.
\<close>

fun resolve_refs :: "node_env \<Rightarrow> path \<Rightarrow> path \<Rightarrow> jsstring list \<Rightarrow> asset list" where
  "resolve_refs env obsidianDir mdDir [] = []"
| "resolve_refs env obsidianDir mdDir (ref # refs) =
     (case findAssetFile env obsidianDir mdDir ref of
        None \<Rightarrow> resolve_refs env obsidianDir mdDir refs
      | Some assetPath \<Rightarrow>
          if assetPath = [] then resolve_refs env obsidianDir mdDir refs
          else \<lparr>a_ref = ref, a_basename = basename ref,
                slugifiedBasename = slugifyBasename (basename ref),
                sourcePath = assetPath\<rparr> # resolve_refs env obsidianDir mdDir refs)"

text \<open>
  \<^verbatim>\<open>map.set(k, v)\<close> of a \<^verbatim>\<open>Map\<close> and \<^verbatim>\<open>obj[k] = v\<close> of an object whose keys are not
  numeric (every key here ends in \<^verbatim>\<open>.md\<close>): a key that is present keeps its place,
  a new key goes last.
\<close>

fun map_set :: "('k \<times> 'v) list \<Rightarrow> 'k \<Rightarrow> 'v \<Rightarrow> ('k \<times> 'v) list" where
  "map_set [] k v = [(k, v)]"
| "map_set ((k', v') # m) k v = (if k' = k then (k, v) # m else (k', v') # map_set m k v)"

text \<open>The loop of \<^verbatim>\<open>getPublishableSet\<close> over the files listed, with the map built so far.\<close>

fun publishable_loop ::
  "node_env \<Rightarrow> path \<Rightarrow> (path \<times> jsstring \<times> real) list \<Rightarrow> (path \<times> document) list \<Rightarrow>
   (path \<times> document) list" where
  "publishable_loop env obsidianDir [] result = result"
| "publishable_loop env obsidianDir ((rel, content, mtime) # cands) result =
     (if \<not> hasPublishableFrontmatter content then publishable_loop env obsidianDir cands result
      else
        (let refs = extractAssetRefs content;
             mdDir = dirname rel;
             resolvedAssets = resolve_refs env obsidianDir mdDir refs
         in publishable_loop env obsidianDir cands
              (map_set result rel
                 \<lparr>d_mtime = mtime, d_content = content, d_assets = resolvedAssets\<rparr>)))"

definition getPublishableSet :: "node_env \<Rightarrow> path \<Rightarrow> errno + (path \<times> document) list" where
  "getPublishableSet env obsidianDir =
     (case md_files env of
        Inl e \<Rightarrow> Inl e
      | Inr candidates \<Rightarrow> Inr (publishable_loop env obsidianDir candidates []))"

section \<open>Rewriting the document body\<close>

fun convert_assets :: "jsstring \<Rightarrow> asset list \<Rightarrow> jsstring" where
  "convert_assets out [] = out"
| "convert_assets out (a # as) =
     convert_assets
       (split_join (js ''![['' @ a_ref a @ js '']]'') (imageLink (slugifiedBasename a)) out) as"

definition convertContentForQuartz :: "jsstring \<Rightarrow> asset list \<Rightarrow> jsstring" where
  "convertContentForQuartz content assets =
     (let out = convert_assets content assets
      in replace_loop WIKI_IMAGE_REGEX
           (\<lambda>caps. imageLink (slugifyBasename (basename (trim (caps ! 0))))) out 0)"

section \<open>Manifest and destination tree\<close>

text \<open>
  A manifest entry as \<^verbatim>\<open>run\<close> reads it: the \<^verbatim>\<open>mtime\<close> and the \<^verbatim>\<open>assets\<close> array, which
  the code allows to be missing (\<^verbatim>\<open>entries[rel].assets || []\<close>). The entries are the
  object \<^verbatim>\<open>manifest.entries\<close> in the order of its keys.
\<close>

record manifest_entry =
  m_mtime :: real
  m_assets :: "path list option"

type_synonym manifest = "(path \<times> manifest_entry) list"

text \<open>
  The calls of \<^verbatim>\<open>run\<close> that touch the destination tree or the manifest file, with the
  arguments the code passes. \<open>Mkdir\<close> is \<^verbatim>\<open>fs.mkdir(p, { recursive: true })\<close> and
  \<open>WriteManifest\<close> is the \<^verbatim>\<open>fs.writeFile\<close> of \<^verbatim>\<open>writeManifest\<close>. The file system is a
  parameter: a handler that, in a state of the world, answers a call with an error code
  or with a list of names (the answer of \<^verbatim>\<open>readdir\<close>; the other calls return nothing and
  the list is ignored), and gives the next state. A run returns its result, the calls it
  made with their answers in order, and the last state.
\<close>

datatype fs_op =
    Unlink path
  | Readdir path
  | Rmdir path
  | Mkdir path
  | CopyFile path path
  | WriteFile path jsstring
  | WriteManifest manifest

type_synonym reply = "errno + jsstring list"
type_synonym event = "fs_op \<times> reply"
type_synonym 'w handler = "fs_op \<Rightarrow> 'w \<Rightarrow> reply \<times> 'w"
type_synonym ('a, 'w) outcome = "(errno + 'a) \<times> event list \<times> 'w"

definition call :: "'w handler \<Rightarrow> fs_op \<Rightarrow> 'w \<Rightarrow> (jsstring list, 'w) outcome" where
  "call h op w = (case h op w of (r, w') \<Rightarrow> (r, [(op, r)], w'))"

text \<open>Sequencing of two awaited steps: an error of the first is thrown past the second.\<close>

definition and_then ::
  "('a, 'w) outcome \<Rightarrow> ('a \<Rightarrow> 'w \<Rightarrow> ('b, 'w) outcome) \<Rightarrow> ('b, 'w) outcome" where
  "and_then m f =
     (case m of
        (Inl e, tr, w) \<Rightarrow> (Inl e, tr, w)
      | (Inr x, tr, w) \<Rightarrow> (case f x w of (r, tr', w') \<Rightarrow> (r, tr @ tr', w')))"

section \<open>Reconciler\<close>

text \<open>
  \<^verbatim>\<open>try { await fs.unlink(p) } catch (e) { if (e.code !== "ENOENT") throw e }\<close>
\<close>

definition unlink_unless_missing :: "'w handler \<Rightarrow> path \<Rightarrow> 'w \<Rightarrow> (unit, 'w) outcome" where
  "unlink_unless_missing h p w =
     (case call h (Unlink p) w of
        (Inl e, tr, w') \<Rightarrow> (if e \<noteq> ENOENT then Inl e else Inr (), tr, w')
      | (Inr names, tr, w') \<Rightarrow> (Inr (), tr, w'))"

definition entry_assets :: "manifest_entry option \<Rightarrow> path list" where
  "entry_assets prev =
     (case prev of
        None \<Rightarrow> []
      | Some e \<Rightarrow> (case m_assets e of None \<Rightarrow> [] | Some as \<Rightarrow> as))"

text \<open>\<^verbatim>\<open>assetsStillReferenced\<close>: the destination path of every resolved asset of every
  document of the snapshot.\<close>

definition assetsStillReferenced :: "(path \<times> document) list \<Rightarrow> path list" where
  "assetsStillReferenced publishable =
     concat (map (\<lambda>(rel, data). map (\<lambda>a. assetDest (slugifiedBasename a)) (d_assets data))
               publishable)"

definition toDeleteMd :: "manifest \<Rightarrow> (path \<times> document) list \<Rightarrow> path list" where
  "toDeleteMd entries publishable =
     filter (\<lambda>rel. map_of publishable rel = None) (map fst entries)"

text \<open>The inner loop of the delete phase, over the assets of one deleted entry.\<close>

fun delete_assets ::
  "'w handler \<Rightarrow> node_env \<Rightarrow> path \<Rightarrow> path list \<Rightarrow> path list \<Rightarrow> 'w \<Rightarrow> (unit, 'w) outcome" where
  "delete_assets h env QUARTZ_CONTENT_DIR still [] w = (Inr (), [], w)"
| "delete_assets h env QUARTZ_CONTENT_DIR still (a # as) w =
     (if a \<notin> set still then
        and_then (unlink_unless_missing h (pjoin env QUARTZ_CONTENT_DIR a) w)
          (\<lambda>u. delete_assets h env QUARTZ_CONTENT_DIR still as)
      else delete_assets h env QUARTZ_CONTENT_DIR still as w)"

text \<open>The outer loop of the delete phase, over \<^verbatim>\<open>toDeleteMd\<close>.\<close>

fun delete_docs ::
  "'w handler \<Rightarrow> node_env \<Rightarrow> path \<Rightarrow> manifest \<Rightarrow> path list \<Rightarrow> path list \<Rightarrow> 'w \<Rightarrow>
   (unit, 'w) outcome" where
  "delete_docs h env QUARTZ_CONTENT_DIR entries still [] w = (Inr (), [], w)"
| "delete_docs h env QUARTZ_CONTENT_DIR entries still (rel # rels) w =
     and_then (unlink_unless_missing h (pjoin env QUARTZ_CONTENT_DIR rel) w)
       (\<lambda>u w1.
          and_then
            (delete_assets h env QUARTZ_CONTENT_DIR still (entry_assets (map_of entries rel)) w1)
            (\<lambda>u. delete_docs h env QUARTZ_CONTENT_DIR entries still rels))"

text \<open>
  The loop over \<^verbatim>\<open>dirsToCheck\<close>. Its \<^verbatim>\<open>try\<close> has an empty \<^verbatim>\<open>catch\<close>: whatever \<^verbatim>\<open>readdir\<close> or
  \<^verbatim>\<open>rmdir\<close> raises, the loop goes on to the next directory.
\<close>

fun remove_empty_dirs ::
  "'w handler \<Rightarrow> node_env \<Rightarrow> path \<Rightarrow> path list \<Rightarrow> 'w \<Rightarrow> (unit, 'w) outcome" where
  "remove_empty_dirs h env QUARTZ_CONTENT_DIR [] w = (Inr (), [], w)"
| "remove_empty_dirs h env QUARTZ_CONTENT_DIR (d # ds) w =
     (if d = [] \<or> d = js ''.'' then remove_empty_dirs h env QUARTZ_CONTENT_DIR ds w
      else
        (let fullDir = pjoin env QUARTZ_CONTENT_DIR d in
         case call h (Readdir fullDir) w of
           (Inl e, tr, w1) \<Rightarrow>
             and_then (Inr (), tr, w1) (\<lambda>u. remove_empty_dirs h env QUARTZ_CONTENT_DIR ds)
         | (Inr names, tr, w1) \<Rightarrow>
             if length names = 0 then
               (case call h (Rmdir fullDir) w1 of
                  (r, tr2, w2) \<Rightarrow>
                    and_then (Inr (), tr @ tr2, w2)
                      (\<lambda>u. remove_empty_dirs h env QUARTZ_CONTENT_DIR ds))
             else and_then (Inr (), tr, w1) (\<lambda>u. remove_empty_dirs h env QUARTZ_CONTENT_DIR ds)))"

text \<open>The loop that copies the assets of one document and collects
  \<^verbatim>\<open>assetPathsInContent\<close>.\<close>

fun copy_assets ::
  "'w handler \<Rightarrow> node_env \<Rightarrow> path \<Rightarrow> asset list \<Rightarrow> 'w \<Rightarrow> (path list, 'w) outcome" where
  "copy_assets h env contentImageDir [] w = (Inr [], [], w)"
| "copy_assets h env contentImageDir (a # as) w =
     and_then
       (call h (CopyFile (sourcePath a) (pjoin env contentImageDir (slugifiedBasename a))) w)
       (\<lambda>names w1.
          and_then (copy_assets h env contentImageDir as w1)
            (\<lambda>paths w2. (Inr (assetDest (slugifiedBasename a) # paths), [], w2)))"

definition assetsChanged :: "path list \<Rightarrow> path list \<Rightarrow> bool" where
  "assetsChanged prevAssets currAssets \<longleftrightarrow>
     length (remdups prevAssets) \<noteq> length (remdups currAssets) \<or>
     list_ex (\<lambda>a. a \<notin> set prevAssets) (remdups currAssets)"

text \<open>
  \<^verbatim>\<open>!isUpdated && !assetsChanged\<close> for the entry \<open>prev\<close> that the manifest has for a
  document (\<^verbatim>\<open>isNew\<close> is that it has none).
\<close>

definition unchanged :: "manifest_entry \<Rightarrow> document \<Rightarrow> bool" where
  "unchanged prev data \<longleftrightarrow>
     \<not> (d_mtime data > m_mtime prev) \<and>
     \<not> assetsChanged (entry_assets (Some prev))
         (map (\<lambda>a. assetDest (slugifiedBasename a)) (d_assets data))"

text \<open>
  The test that lets the loop skip a document: the entry \<^verbatim>\<open>prev\<close> that is carried
  forward, if \<^verbatim>\<open>!isNew && !isUpdated && !assetsChanged\<close>.
\<close>

definition carried :: "manifest \<Rightarrow> path \<Rightarrow> document \<Rightarrow> manifest_entry option" where
  "carried entries rel data =
     (case map_of entries rel of
        None \<Rightarrow> None
      | Some prev \<Rightarrow> if unchanged prev data then Some prev else None)"

text \<open>
  The body of the add/update loop for a document that is new or changed: the directory
  is made, the assets are copied, the rewritten text is written, and the new manifest
  entry is the result.
\<close>

definition materialize ::
  "'w handler \<Rightarrow> node_env \<Rightarrow> path \<Rightarrow> path \<Rightarrow> document \<Rightarrow> 'w \<Rightarrow> (manifest_entry, 'w) outcome" where
  "materialize h env QUARTZ_CONTENT_DIR rel data w =
     (let contentImageDir = pjoin env QUARTZ_CONTENT_DIR (js ''image'');
          quartzMdPath = pjoin env QUARTZ_CONTENT_DIR rel;
          quartzMdDir = dirname quartzMdPath
      in and_then (call h (Mkdir quartzMdDir) w)
           (\<lambda>names w1.
              and_then (copy_assets h env contentImageDir (d_assets data) w1)
                (\<lambda>assetPathsInContent w2.
                   and_then
                     (call h (WriteFile quartzMdPath
                                (convertContentForQuartz (d_content data) (d_assets data))) w2)
                     (\<lambda>names w3.
                        (Inr \<lparr>m_mtime = d_mtime data, m_assets = Some assetPathsInContent\<rparr>,
                         [], w3)))))"

text \<open>The loop of the add/update phase over the snapshot, with \<^verbatim>\<open>newEntries\<close> so far.\<close>

fun add_update ::
  "'w handler \<Rightarrow> node_env \<Rightarrow> path \<Rightarrow> manifest \<Rightarrow> (path \<times> document) list \<Rightarrow> manifest \<Rightarrow>
   'w \<Rightarrow> (manifest, 'w) outcome" where
  "add_update h env QUARTZ_CONTENT_DIR entries [] newEntries w = (Inr newEntries, [], w)"
| "add_update h env QUARTZ_CONTENT_DIR entries ((rel, data) # rest) newEntries w =
     (case carried entries rel data of
        Some prev \<Rightarrow>
          add_update h env QUARTZ_CONTENT_DIR entries rest (map_set newEntries rel prev) w
      | None \<Rightarrow>
          and_then (materialize h env QUARTZ_CONTENT_DIR rel data w)
            (\<lambda>entry. add_update h env QUARTZ_CONTENT_DIR entries rest
                       (map_set newEntries rel entry)))"

text \<open>
  \<^verbatim>\<open>run\<close>, from the snapshot on: \<open>entries\<close> is what \<^verbatim>\<open>readManifest\<close> returned (the empty
  object when the manifest file is missing or does not parse). \<^verbatim>\<open>new Set(xs)\<close> keeps
  the first occurrence of each element, as \<open>remdups\<close> of the reversed list, reversed.
\<close>

definition dirsToCheck :: "path list \<Rightarrow> path list" where
  "dirsToCheck rels = rev (remdups (rev (map dirname rels)))"

text \<open>The second half of \<^verbatim>\<open>run\<close>, from \<^verbatim>\<open>// 2. Add / Update\<close> to the end.\<close>

definition add_update_phase ::
  "'w handler \<Rightarrow> node_env \<Rightarrow> path \<Rightarrow> manifest \<Rightarrow> (path \<times> document) list \<Rightarrow> 'w \<Rightarrow>
   (manifest, 'w) outcome" where
  "add_update_phase h env QUARTZ_CONTENT_DIR entries publishable w =
     and_then (call h (Mkdir (pjoin env QUARTZ_CONTENT_DIR (js ''image''))) w)
       (\<lambda>names w1.
          and_then (add_update h env QUARTZ_CONTENT_DIR entries publishable [] w1)
            (\<lambda>newEntries w2.
               and_then (call h (WriteManifest newEntries) w2)
                 (\<lambda>names w3. (Inr newEntries, [], w3))))"

definition run ::
  "'w handler \<Rightarrow> node_env \<Rightarrow> path \<Rightarrow> path \<Rightarrow> manifest \<Rightarrow> 'w \<Rightarrow> (manifest, 'w) outcome" where
  "run h env OBSIDIAN_DIR QUARTZ_CONTENT_DIR entries w =
     (case getPublishableSet env OBSIDIAN_DIR of
        Inl e \<Rightarrow> (Inl e, [], w)
      | Inr publishable \<Rightarrow>
          (let del = toDeleteMd entries publishable;
               still = assetsStillReferenced publishable
           in and_then (delete_docs h env QUARTZ_CONTENT_DIR entries still del w)
                (\<lambda>u w1.
                   and_then (remove_empty_dirs h env QUARTZ_CONTENT_DIR (dirsToCheck del) w1)
                     (\<lambda>u. add_update_phase h env QUARTZ_CONTENT_DIR entries publishable))))"

section \<open>A runtime and a file system for examples\<close>

text \<open>
  The examples need one concrete answer for every parameter. Paths are joined with a
  slash, case is lowered on the ASCII letters, and the source tree is a list of the
  paths of its files. The destination is the list of the paths of the files it holds:
  \<^verbatim>\<open>unlink\<close> of a path that is not there answers \<open>ENOENT\<close>, \<^verbatim>\<open>readdir\<close> lists the files
  directly in a directory, \<^verbatim>\<open>rmdir\<close> refuses a directory that holds a file, and the writes
  add their target. \<open>locked_fs\<close> is the same tree with directories that may not be
  removed.
\<close>

definition simple_join :: "path \<Rightarrow> path \<Rightarrow> path" where
  "simple_join a b = a @ js ''/'' @ b"

definition ascii_lower :: "jsstring \<Rightarrow> jsstring" where
  "ascii_lower s = map (\<lambda>c. if 65 \<le> c \<and> c \<le> 90 then c + 32 else c) s"

definition example_env :: "path list \<Rightarrow> (path \<times> jsstring \<times> real) list \<Rightarrow> node_env" where
  "example_env files md =
     \<lparr>pjoin = simple_join, toLowerCase = ascii_lower, md_files = Inr md,
      access = (\<lambda>p. p \<in> set files),
      readdir = (\<lambda>d. Some (map basename (filter (\<lambda>f. dirname f = d) files)))\<rparr>"

definition mem_fs :: "path list handler" where
  "mem_fs op files =
     (case op of
        Unlink p \<Rightarrow> if p \<in> set files then (Inr [], removeAll p files) else (Inl ENOENT, files)
      | Readdir d \<Rightarrow> (Inr (map basename (filter (\<lambda>f. dirname f = d) files)), files)
      | Rmdir d \<Rightarrow>
          if list_ex (\<lambda>f. startsWith f (d @ js ''/'')) files then (Inl ENOTEMPTY, files)
          else (Inr [], files)
      | Mkdir d \<Rightarrow> (Inr [], files)
      | CopyFile src dst \<Rightarrow> (Inr [], set_add files dst)
      | WriteFile dst text \<Rightarrow> (Inr [], set_add files dst)
      | WriteManifest m \<Rightarrow> (Inr [], files))"

definition locked_fs :: "path list handler" where
  "locked_fs op files =
     (case op of
        Rmdir d \<Rightarrow> (Inl EACCES, files)
      | _ \<Rightarrow> mem_fs op files)"

text \<open>The same tree with documents that may not be written.\<close>

definition no_write_fs :: "path list handler" where
  "no_write_fs op files =
     (case op of
        WriteFile dst text \<Rightarrow> (Inl EACCES, files)
      | _ \<Rightarrow> mem_fs op files)"

text \<open>A publishable note with one wiki embed of \<open>img\<close>, and the same note switched off.\<close>

definition note_on :: "jsstring \<Rightarrow> jsstring" where
  "note_on img =
     js ''---'' @ [CHAR_LF] @ KEY_PUBLISHABLE @ js '': true'' @ [CHAR_LF] @ js ''---'' @
     [CHAR_LF] @ js ''![['' @ img @ js '']]''"

definition note_off :: "jsstring \<Rightarrow> jsstring" where
  "note_off img =
     js ''---'' @ [CHAR_LF] @ KEY_PUBLISHABLE @ js '': false'' @ [CHAR_LF] @ js ''---'' @
     [CHAR_LF] @ js ''![['' @ img @ js '']]''"

text \<open>A publishable note without an embed, and a note as the engine writes it to the site:
  the embed replaced by the link to the image of that name.\<close>

definition note_linked :: "jsstring \<Rightarrow> jsstring" where
  "note_linked slug =
     js ''---'' @ [CHAR_LF] @ KEY_PUBLISHABLE @ js '': true'' @ [CHAR_LF] @ js ''---'' @
     [CHAR_LF] @ imageLink slug"

definition note_plain :: jsstring where
  "note_plain =
     js ''---'' @ [CHAR_LF] @ KEY_PUBLISHABLE @ js '': true'' @ [CHAR_LF] @ js ''---'' @
     [CHAR_LF] @ js ''text''"

text \<open>
  A second runtime, for the examples in which a reference climbs out of its directory or a
  name is empty. \<open>posix_join\<close> is \<^verbatim>\<open>path.join\<close> of Node for two arguments (\<^verbatim>\<open>lib/path.js\<close>,
  the \<^verbatim>\<open>posix\<close> object): the arguments that are not empty are joined with a slash and the
  result is normalized, that is, empty segments and \<^verbatim>\<open>.\<close> are dropped, \<^verbatim>\<open>..\<close> removes the
  segment before it (and is kept at the start of a relative path), and a trailing slash
  stays. The tree is one file system that holds the vault and the site: a list of
  directories and a list of files; \<^verbatim>\<open>fs.access\<close> accepts both, and \<^verbatim>\<open>fs.readdir\<close> lists what
  is directly in a directory and rejects any other path.
\<close>

definition push_segment :: "bool \<Rightarrow> jsstring \<Rightarrow> jsstring list \<Rightarrow> jsstring list" where
  "push_segment allowAboveRoot seg res =
     (if seg = [] \<or> seg = js ''.'' then res
      else if seg = js ''..'' then
        (if res \<noteq> [] \<and> last res \<noteq> js ''..'' then butlast res
         else if allowAboveRoot then res @ [seg] else res)
      else res @ [seg])"

fun join_segments :: "jsstring list \<Rightarrow> jsstring" where
  "join_segments [] = []"
| "join_segments [s] = s"
| "join_segments (s # t # ss) = s @ CHAR_FORWARD_SLASH # join_segments (t # ss)"

definition normalize :: "jsstring \<Rightarrow> jsstring" where
  "normalize p =
     (if p = [] then js ''.''
      else
        (let isAbsolute = (hd p = CHAR_FORWARD_SLASH);
             trailingSeparator = (last p = CHAR_FORWARD_SLASH);
             r = join_segments
                   (fold (push_segment (\<not> isAbsolute)) (split_on CHAR_FORWARD_SLASH p) [])
         in if r = [] then
              (if isAbsolute then js ''/'' else if trailingSeparator then js ''./'' else js ''.'')
            else (if isAbsolute then js ''/'' else []) @ r @
                 (if trailingSeparator then js ''/'' else [])))"

definition posix_join :: "jsstring \<Rightarrow> jsstring \<Rightarrow> jsstring" where
  "posix_join a b =
     (if a = [] \<and> b = [] then js ''.''
      else normalize (if a = [] then b else if b = [] then a else a @ CHAR_FORWARD_SLASH # b))"

definition tree_env :: "path list \<Rightarrow> path list \<Rightarrow> (path \<times> jsstring \<times> real) list \<Rightarrow> node_env" where
  "tree_env dirs files md =
     \<lparr>pjoin = posix_join, toLowerCase = ascii_lower, md_files = Inr md,
      access = (\<lambda>p. p \<in> set dirs \<or> p \<in> set files),
      readdir = (\<lambda>d. if d \<in> set dirs
                      then Some (map basename (filter (\<lambda>f. dirname f = d) (dirs @ files)))
                      else None)\<rparr>"

section \<open>Reading the calls of a run\<close>

text \<open>
  The errors that the code catches and drops: \<open>ENOENT\<close> of an \<^verbatim>\<open>unlink\<close>, and whatever
  \<^verbatim>\<open>readdir\<close> or \<^verbatim>\<open>rmdir\<close> raise inside the \<^verbatim>\<open>try\<close> with the empty \<^verbatim>\<open>catch\<close>. A call
  has \<open>failed\<close> when its answer is an error, and the failure is \<open>fatal\<close> when the error is
  not one of those.
\<close>

definition swallowed :: "fs_op \<Rightarrow> errno \<Rightarrow> bool" where
  "swallowed op e =
     (case op of Unlink p \<Rightarrow> e = ENOENT | Readdir p \<Rightarrow> True | Rmdir p \<Rightarrow> True | _ \<Rightarrow> False)"

definition fatal :: "event \<Rightarrow> bool" where
  "fatal ev = (case snd ev of Inl e \<Rightarrow> \<not> swallowed (fst ev) e | Inr names \<Rightarrow> False)"

definition failed :: "event \<Rightarrow> bool" where
  "failed ev = (case snd ev of Inl e \<Rightarrow> True | Inr names \<Rightarrow> False)"

definition err_of :: "errno + 'a \<Rightarrow> errno option" where
  "err_of r = (case r of Inl e \<Rightarrow> Some e | Inr x \<Rightarrow> None)"

text \<open>
  Two shapes of a list of calls. It is \<open>orderly\<close> for an outcome when no call but the
  last failed fatally, and the last one did so exactly when the outcome is that error.
  It is \<open>strict\<close> when every failure in it is fatal.
\<close>

definition orderly :: "errno option \<Rightarrow> event list \<Rightarrow> bool" where
  "orderly err tr =
     (case err of
        None \<Rightarrow> list_all (\<lambda>ev. \<not> fatal ev) tr
      | Some e \<Rightarrow> tr \<noteq> [] \<and> list_all (\<lambda>ev. \<not> fatal ev) (butlast tr) \<and> fatal (last tr) \<and>
                snd (last tr) = Inl e)"

definition strict :: "event list \<Rightarrow> bool" where
  "strict tr = list_all (\<lambda>ev. failed ev = fatal ev) tr"

definition tidy :: "errno option \<Rightarrow> event list \<Rightarrow> bool" where
  "tidy err tr \<longleftrightarrow> orderly err tr \<and> strict tr"

definition is_dir_op :: "fs_op \<Rightarrow> bool" where
  "is_dir_op op = (case op of Readdir p \<Rightarrow> True | Rmdir p \<Rightarrow> True | _ \<Rightarrow> False)"

definition is_unlink :: "fs_op \<Rightarrow> bool" where
  "is_unlink op = (case op of Unlink p \<Rightarrow> True | _ \<Rightarrow> False)"

section \<open>What a run is to do\<close>

text \<open>
  The calls and the manifest that sections 4.5 and 3 of the specification ask for, as
  functions of the snapshot and the manifest loaded: the entry written for a document
  that is materialized, the entry the new manifest has for a document, the calls that
  materialize a document, the calls that delete one, and the paths a manifest lists
  (its keys and the assets of its entries).
\<close>

definition fresh_entry :: "document \<Rightarrow> manifest_entry" where
  "fresh_entry data =
     \<lparr>m_mtime = d_mtime data,
      m_assets = Some (map (\<lambda>a. assetDest (slugifiedBasename a)) (d_assets data))\<rparr>"

definition entry_for :: "manifest \<Rightarrow> path \<Rightarrow> document \<Rightarrow> manifest_entry" where
  "entry_for entries rel data =
     (case carried entries rel data of Some prev \<Rightarrow> prev | None \<Rightarrow> fresh_entry data)"

definition write_ops :: "node_env \<Rightarrow> path \<Rightarrow> path \<Rightarrow> document \<Rightarrow> fs_op list" where
  "write_ops env q rel data =
     Mkdir (dirname (pjoin env q rel)) #
     map (\<lambda>a. CopyFile (sourcePath a) (pjoin env (pjoin env q (js ''image'')) (slugifiedBasename a)))
       (d_assets data) @
     [WriteFile (pjoin env q rel) (convertContentForQuartz (d_content data) (d_assets data))]"

definition delete_ops :: "node_env \<Rightarrow> path \<Rightarrow> manifest \<Rightarrow> path list \<Rightarrow> path \<Rightarrow> fs_op list" where
  "delete_ops env q entries still rel =
     Unlink (pjoin env q rel) #
     map (\<lambda>a. Unlink (pjoin env q a))
       (filter (\<lambda>a. a \<notin> set still) (entry_assets (map_of entries rel)))"

definition planned_ops :: "node_env \<Rightarrow> path \<Rightarrow> manifest \<Rightarrow> path \<times> document \<Rightarrow> fs_op list" where
  "planned_ops env q entries d =
     (case carried entries (fst d) (snd d) of
        Some prev \<Rightarrow> []
      | None \<Rightarrow> write_ops env q (fst d) (snd d))"

definition manifest_paths :: "manifest \<Rightarrow> path set" where
  "manifest_paths m = fst ` set m \<union> (\<Union>x\<in>set m. set (entry_assets (Some (snd x))))"

text \<open>The manifest that a run is to write, for the manifest loaded and the snapshot.\<close>

definition planned_manifest :: "manifest \<Rightarrow> (path \<times> document) list \<Rightarrow> manifest" where
  "planned_manifest entries snap = map (\<lambda>d. (fst d, entry_for entries (fst d) (snd d))) snap"

text \<open>
  The calls a run may make, for the manifest loaded and the snapshot: a file is deleted
  only at a path of the manifest loaded, a file is written only at a path of the planned
  manifest, and a copy reads the source of a resolved asset of the snapshot.
\<close>

definition own_target ::
  "node_env \<Rightarrow> path \<Rightarrow> manifest \<Rightarrow> (path \<times> document) list \<Rightarrow> fs_op \<Rightarrow> bool" where
  "own_target env q old snap op =
     (case op of
        Unlink p \<Rightarrow> p \<in> pjoin env q ` manifest_paths old
      | CopyFile src dst \<Rightarrow>
          (\<exists>d\<in>set snap. \<exists>a\<in>set (d_assets (snd d)).
             src = sourcePath a \<and>
             dst = pjoin env (pjoin env q (js ''image'')) (slugifiedBasename a) \<and>
             assetDest (slugifiedBasename a) \<in> manifest_paths (planned_manifest old snap))
      | WriteFile dst text \<Rightarrow> dst \<in> pjoin env q ` fst ` set (planned_manifest old snap)
      | Readdir d \<Rightarrow> True
      | Rmdir d \<Rightarrow> True
      | Mkdir d \<Rightarrow> True
      | WriteManifest m \<Rightarrow> m = planned_manifest old snap)"

section \<open>Example trees\<close>

text \<open>
  A vault \<^verbatim>\<open>/v\<close> with the image \<^verbatim>\<open>image/s.png\<close> and two notes that embed it, each
  publishable or not; a site \<^verbatim>\<open>/q\<close> that holds both notes, the image and a hand-written
  \<^verbatim>\<open>index.md\<close>, with the manifest that lists both notes; the site after a first run from
  an empty manifest; a vault with images in several places; an empty vault, against a
  manifest with one note in a directory; and a file system that refuses every call.
\<close>

definition VAULT :: path where "VAULT = js ''/v''"

definition SITE :: path where "SITE = js ''/q''"

definition readonly_fs :: "path list handler" where
  "readonly_fs op files = (Inl EACCES, files)"

definition entry_s :: manifest_entry where
  "entry_s = \<lparr>m_mtime = 5, m_assets = Some [js ''image/s.png'']\<rparr>"

definition env_ab :: "bool \<Rightarrow> bool \<Rightarrow> node_env" where
  "env_ab a b =
     example_env [js ''/v/image/s.png'']
       [(js ''a.md'', (if a then note_on else note_off) (js ''s.png''), 5),
        (js ''b.md'', (if b then note_on else note_off) (js ''s.png''), 5)]"

definition site_ab :: "path list" where
  "site_ab = [js ''/q/index.md'', js ''/q/a.md'', js ''/q/b.md'', js ''/q/image/s.png'']"

definition manifest_ab :: manifest where
  "manifest_ab = [(js ''a.md'', entry_s), (js ''b.md'', entry_s)]"

definition site_new :: "path list" where
  "site_new = [js ''/q/index.md'', js ''/q/image/s.png'', js ''/q/a.md'', js ''/q/b.md'']"

definition env_assets :: node_env where
  "env_assets =
     example_env [js ''/v/image/a.png'', js ''/v/n/b.png'', js ''/v/image/c-d.png'', js ''/v/image/E F.png'']
       [(js ''n/x.md'', note_on (js ''gone.png''), 7)]"

definition env_gone :: node_env where
  "env_gone = example_env [] []"

definition manifest_d :: manifest where
  "manifest_d = [(js ''d/a.md'', \<lparr>m_mtime = 5, m_assets = Some []\<rparr>)]"

text \<open>
  Three trees on the second runtime. In the first the vault has an image directory with
  one image, and a note that embeds \<^verbatim>\<open>photo\<close>, a name that no file has. In the second a
  note embeds \<^verbatim>\<open>../q/index.md\<close>, the hand-written document of the site. In the third a
  note embeds \<^verbatim>\<open>../q/b.md\<close>, the place in the site where the other note of the vault is
  published; the files of the site are a parameter, the vault is the same whatever they
  are.
\<close>

definition env_photo :: node_env where
  "env_photo =
     tree_env [js ''/v'', js ''/v/image''] [js ''/v/a.md'', js ''/v/image/s.png'']
       [(js ''a.md'', note_on (js ''photo''), 7)]"

definition env_escape :: node_env where
  "env_escape =
     tree_env [js ''/v'', js ''/q''] [js ''/v/a.md'', js ''/q/index.md'']
       [(js ''a.md'', note_on (js ''../q/index.md''), 7)]"

definition env_seeing :: "path list \<Rightarrow> node_env" where
  "env_seeing site =
     tree_env [js ''/v'', js ''/q''] ([js ''/v/a.md'', js ''/v/b.md''] @ site)
       [(js ''a.md'', note_on (js ''../q/b.md''), 5), (js ''b.md'', note_plain, 5)]"

text \<open>The manifests that the runs on the second and the third tree write, and the vault of
  the two notes on the first runtime, seen together with the files of the site.\<close>

definition manifest_escape :: manifest where
  "manifest_escape = [(js ''a.md'', \<lparr>m_mtime = 7, m_assets = Some [js ''image/index.md'']\<rparr>)]"

definition manifest_first :: manifest where
  "manifest_first =
     [(js ''a.md'', \<lparr>m_mtime = 5, m_assets = Some []\<rparr>),
      (js ''b.md'', \<lparr>m_mtime = 5, m_assets = Some []\<rparr>)]"

definition manifest_second :: manifest where
  "manifest_second =
     [(js ''a.md'', \<lparr>m_mtime = 5, m_assets = Some [js ''image/b.md'']\<rparr>),
      (js ''b.md'', \<lparr>m_mtime = 5, m_assets = Some []\<rparr>)]"

definition env_ab_seeing :: "path list \<Rightarrow> node_env" where
  "env_ab_seeing site =
     example_env (js ''/v/image/s.png'' # site)
       [(js ''a.md'', note_on (js ''s.png''), 5), (js ''b.md'', note_on (js ''s.png''), 5)]"

section \<open>Properties of the name normalizer\<close>

lemma js_slice_drop_suffix:
  "0 < n \<Longrightarrow> js_slice s 0 (- int n) = take (length s - n) s"
proof -
  assume "0 < n"
  have "nat (int (length s) - int n) = length s - n" by linarith
  with \<open>0 < n\<close> show ?thesis
    by (auto simp: js_slice_def Let_def max_def)
qed

lemma js_slice_minus_zero: "js_slice s 0 (- int 0) = []"
  by (simp add: js_slice_def)

lemma slugifyBasename_with_extension:
  "extname name \<noteq> [] \<Longrightarrow> slugifyBasename name = normalize_spec name"
  by (simp add: slugifyBasename_def normalize_spec_def transform_rules_def Let_def
      js_slice_drop_suffix)

text \<open>
  C4. The claim is that slugifyBasename applies the transform rules to the name without
  its extension and puts the extension back, also for a name that has no extension,
  whose whole name is then transformed. The code does so exactly when the extension is
  not empty (\<open>slugifyBasename_with_extension\<close>). For the name \<^verbatim>\<open>my photo\<close>, which has no
  extension, the rules give \<^verbatim>\<open>my-photo\<close> and the code returns the empty string.
\<close>

theorem C4_no_extension_lost:
  "extname (js ''my photo'') = [] \<and>
   normalize_spec (js ''my photo'') = js ''my-photo'' \<and>
   slugifyBasename (js ''my photo'') = []"
  by code_simp

text \<open>
  C8. The claim is that normalizing a normalized name gives the same name. The name
  \<^verbatim>\<open>?.png\<close> is normalized to \<^verbatim>\<open>.png\<close>, a name that Node gives no extension, and that
  name is normalized to the empty string.
\<close>

theorem C8_not_idempotent:
  "slugifyBasename (js ''?.png'') = js ''.png'' \<and>
   slugifyBasename (slugifyBasename (js ''?.png'')) = [] \<and>
   slugifyBasename (slugifyBasename (js ''?.png'')) \<noteq> slugifyBasename (js ''?.png'')"
  by code_simp

text \<open>
  C9. For every name whose extension is empty, slugifyBasename returns the empty string,
  since the part to transform is \<^verbatim>\<open>name.slice(0, -0)\<close>; the destination path of such an
  asset is the bare \<^verbatim>\<open>image/\<close> and its rewritten link points at \<^verbatim>\<open>../image/\<close>.
\<close>

theorem C9_empty_extension:
  assumes "extname name = []"
  shows "slugifyBasename name = [] \<and>
         assetDest (slugifyBasename name) = js ''image/'' \<and>
         imageLink (slugifyBasename name) = js ''![](../image/)''"
  using assms
  by (simp add: slugifyBasename_def Let_def js_slice_def replace_all_def assetDest_def
      imageLink_def js_def)

theorem C9_empty_extension_witness:
  "extname (js ''photo'') = [] \<and> extname (js ''.png'') = [] \<and>
   slugifyBasename (js ''photo'') = [] \<and> slugifyBasename (js ''.png'') = [] \<and>
   assetDest (slugifyBasename (js ''photo'')) = js ''image/''"
proof -
  have photo: "extname (js ''photo'') = []" by code_simp
  have dot: "extname (js ''.png'') = []" by code_simp
  from C9_empty_extension [OF photo] C9_empty_extension [OF dot] photo dot
  show ?thesis by blast
qed

section \<open>Properties of the asset extraction\<close>

lemma set_set_add: "set (set_add xs x) = insert x (set xs)"
  by (auto simp: set_add_def)

lemma set_fold_set_add: "set (fold (\<lambda>r refs. set_add refs r) xs acc) = set acc \<union> set xs"
  by (induction xs arbitrary: acc) (auto simp: set_set_add)

lemma set_fold_guarded:
  "set (fold (\<lambda>x refs. if P x then set_add refs x else refs) xs acc) =
   set acc \<union> {x \<in> set xs. P x}"
  by (induction xs arbitrary: acc) (auto simp: set_set_add)

text \<open>
  C10. The references that extractAssetRefs collects are the trimmed targets of the
  wiki-style embeds, whatever they begin with, and those trimmed targets of the standard
  image markup that do not begin with the four characters \<^verbatim>\<open>http\<close>: a target of the
  standard markup that begins with \<^verbatim>\<open>http\<close>, such as \<^verbatim>\<open>httpdocs/a.png\<close>, is collected
  only if a wiki-style embed names it too.
\<close>

theorem C10_http_prefix_excluded:
  "set (extractAssetRefs content) =
     set (wiki_refs content) \<union> {href \<in> set (md_hrefs content). \<not> startsWith href (js ''http'')}"
  by (simp add: extractAssetRefs_def Let_def set_fold_guarded set_fold_set_add)

theorem C10_http_prefix_excluded_witness:
  "md_hrefs (js ''![x](httpdocs/a.png)'') = [js ''httpdocs/a.png''] \<and>
   extractAssetRefs (js ''![x](httpdocs/a.png)'') = [] \<and>
   extractAssetRefs (js ''![x](docs/a.png)'') = [js ''docs/a.png''] \<and>
   extractAssetRefs (js ''![[httpdocs/a.png]]'') = [js ''httpdocs/a.png'']"
proof -
  have m: "md_hrefs (js ''![x](httpdocs/a.png)'') = [js ''httpdocs/a.png'']" by code_simp
  have w: "wiki_refs (js ''![x](httpdocs/a.png)'') = []" by code_simp
  have h: "startsWith (js ''httpdocs/a.png'') (js ''http'')" by code_simp
  from C10_http_prefix_excluded [of "js ''![x](httpdocs/a.png)''"] m w h
  have "set (extractAssetRefs (js ''![x](httpdocs/a.png)'')) = {}" by simp
  then have e: "extractAssetRefs (js ''![x](httpdocs/a.png)'') = []" by simp
  have "extractAssetRefs (js ''![x](docs/a.png)'') = [js ''docs/a.png'']"
    "extractAssetRefs (js ''![[httpdocs/a.png]]'') = [js ''httpdocs/a.png'']"
    by code_simp+
  with m e show ?thesis by blast
qed

section \<open>Properties of the asset resolver and of the snapshot\<close>

lemma map_of_map_set: "map_of (map_set m k v) k' = (if k' = k then Some v else map_of m k')"
  by (induction m k v rule: map_set.induct) auto

lemma keys_map_set: "set (map fst (map_set m k v)) = insert k (set (map fst m))"
  by (induction m k v rule: map_set.induct) auto

lemma distinct_map_set: "distinct (map fst m) \<Longrightarrow> distinct (map fst (map_set m k v))"
proof (induction m k v rule: map_set.induct)
  case (1 k v) then show ?case by simp
next
  case (2 k' v' m k v)
  then show ?case using keys_map_set[of m k v] by auto
qed

lemma distinct_publishable_loop:
  "distinct (map fst result) \<Longrightarrow> distinct (map fst (publishable_loop env obs cands result))"
  by (induction env obs cands result rule: publishable_loop.induct)
     (auto simp: Let_def distinct_map_set)

lemma publishable_loop_other:
  "rel \<notin> fst ` set cands \<Longrightarrow>
   map_of (publishable_loop env obs cands result) rel = map_of result rel"
  by (induction env obs cands result rule: publishable_loop.induct)
     (auto simp: Let_def map_of_map_set)

lemma publishable_loop_member:
  "distinct (map fst cands) \<Longrightarrow> (rel, content, mtime) \<in> set cands \<Longrightarrow>
   hasPublishableFrontmatter content \<Longrightarrow>
   map_of (publishable_loop env obs cands result) rel =
     Some \<lparr>d_mtime = mtime, d_content = content,
           d_assets = resolve_refs env obs (dirname rel) (extractAssetRefs content)\<rparr>"
proof (induction env obs cands result rule: publishable_loop.induct)
  case (1 env obs result) then show ?case by simp
next
  case (2 env obs rel' content' mtime' cands result)
  show ?case
  proof (cases "(rel, content, mtime) = (rel', content', mtime')")
    case True
    with 2 have "rel \<notin> fst ` set cands" by auto
    with True 2 show ?thesis
      by (simp add: Let_def publishable_loop_other map_of_map_set)
  next
    case False
    with 2 have "(rel, content, mtime) \<in> set cands" "distinct (map fst cands)" by auto
    with 2 show ?thesis by (auto simp: Let_def)
  qed
qed

lemma publishable_loop_unpublishable:
  "distinct (map fst cands) \<Longrightarrow> (rel, content, mtime) \<in> set cands \<Longrightarrow>
   \<not> hasPublishableFrontmatter content \<Longrightarrow>
   map_of (publishable_loop env obs cands result) rel = map_of result rel"
proof (induction env obs cands result rule: publishable_loop.induct)
  case (1 env obs result) then show ?case by simp
next
  case (2 env obs rel' content' mtime' cands result)
  show ?case
  proof (cases "(rel, content, mtime) = (rel', content', mtime')")
    case True
    with 2 have "rel \<notin> fst ` set cands" by auto
    with True 2 show ?thesis
      by (simp add: Let_def publishable_loop_other map_of_map_set)
  next
    case False
    with 2 have *: "(rel, content, mtime) \<in> set cands" "distinct (map fst cands)" "rel \<noteq> rel'"
      by (auto simp: rev_image_eqI)
    with 2 show ?thesis by (auto simp: Let_def map_of_map_set)
  qed
qed

lemma resolve_refs_refs:
  "a_ref ` set (resolve_refs env obs d refs) =
   {r \<in> set refs. \<exists>p. findAssetFile env obs d r = Some p \<and> p \<noteq> []}"
  by (induction refs) (auto split: option.splits)

lemma match_by_slug_find:
  "match_by_slug env imageDir want files =
   (case find (\<lambda>f. toLowerCase env (slugifyBasename f) = want) files of
      None \<Rightarrow> None | Some f \<Rightarrow> Some (pjoin env imageDir f))"
  by (induction files) auto

lemma snapshot_distinct:
  "getPublishableSet env obs = Inr snap \<Longrightarrow> distinct (map fst snap)"
  by (auto simp: getPublishableSet_def distinct_publishable_loop split: sum.splits)

lemma findAssetFile_order:
  "findAssetFile env obs mdDir ref =
     (let imageDir = pjoin env obs (js ''image'');
          exact = pjoin env imageDir (basename ref);
          literal = pjoin env (pjoin env obs mdDir) ref;
          normalized = pjoin env imageDir (slugifyBasename (basename ref))
      in if access env exact then Some exact
         else if access env literal then Some literal
         else if access env normalized then Some normalized
         else (case readdir env imageDir of
                 None \<Rightarrow> None
               | Some files \<Rightarrow>
                   (case find (\<lambda>f. toLowerCase env (slugifyBasename f) =
                                     toLowerCase env (slugifyBasename (basename ref))) files of
                      None \<Rightarrow> None
                    | Some f \<Rightarrow> Some (pjoin env imageDir f))))"
  by (simp add: findAssetFile_def Let_def match_by_slug_find split: option.splits)

lemma snapshot_assets:
  assumes "md_files env = Inr cands" "distinct (map fst cands)" "(rel, content, mtime) \<in> set cands"
    and "hasPublishableFrontmatter content"
  shows "\<exists>snap doc. getPublishableSet env obs = Inr snap \<and> map_of snap rel = Some doc \<and>
         d_content doc = content \<and> d_mtime doc = mtime \<and>
         a_ref ` set (d_assets doc) =
           {r \<in> set (extractAssetRefs content).
              \<exists>p. findAssetFile env obs (dirname rel) r = Some p \<and> p \<noteq> []}"
proof -
  from assms have snap: "getPublishableSet env obs = Inr (publishable_loop env obs cands [])"
    by (simp add: getPublishableSet_def)
  from assms have "map_of (publishable_loop env obs cands []) rel =
     Some \<lparr>d_mtime = mtime, d_content = content,
           d_assets = resolve_refs env obs (dirname rel) (extractAssetRefs content)\<rparr>"
    by (simp add: publishable_loop_member)
  with snap show ?thesis by (simp add: resolve_refs_refs)
qed

text \<open>
  C5. The claim is that a reference is resolved, in four steps, to a file, and is dropped
  when no step finds one. The note of \<open>env_photo\<close> embeds \<^verbatim>\<open>photo\<close>. No file of the vault has
  that name, and the image directory holds \<^verbatim>\<open>s.png\<close> only, so the reference is dangling.
  The normalized name of \<^verbatim>\<open>photo\<close> is empty, because its extension is empty; the third
  candidate is \<^verbatim>\<open>path.join(imageDir, "")\<close>, which is the image directory itself, and
  \<^verbatim>\<open>fs.access\<close> accepts a directory. The reference is not dropped: the snapshot holds an
  asset with the empty name whose source is the directory.
\<close>

theorem C5_directory_taken_for_asset:
  "findAssetFile env_photo VAULT (js ''.'') (js ''photo'') = Some (js ''/v/image'') \<and>
   \<not> access env_photo (js ''/v/image/photo'') \<and>
   \<not> access env_photo (js ''/v/photo'') \<and>
   readdir env_photo (js ''/v/image'') = Some [js ''s.png''] \<and>
   getPublishableSet env_photo VAULT =
     Inr [(js ''a.md'',
           \<lparr>d_mtime = 7, d_content = note_on (js ''photo''),
            d_assets = [\<lparr>a_ref = js ''photo'', a_basename = js ''photo'',
                         slugifiedBasename = [], sourcePath = js ''/v/image''\<rparr>]\<rparr>)]"
  by code_simp

section \<open>The calls of the reconciler\<close>

lemma err_of_simps [simp]: "err_of (Inl e) = Some e" "err_of (Inr x) = None"
  by (simp_all add: err_of_def)

lemma and_then_Inl: "and_then (Inl e, tr, w) f = (Inl e, tr, w)"
  by (simp add: and_then_def)

lemma and_then_Inr: "and_then (Inr x, tr, w) f = (case f x w of (r, tr', w') \<Rightarrow> (r, tr @ tr', w'))"
  by (simp add: and_then_def)

lemma and_then_cases:
  assumes "and_then m f = (res, tr, w')"
  obtains (abort) e where "m = (Inl e, tr, w')" "res = Inl e"
  | (go) x tr1 w1 tr2 where "m = (Inr x, tr1, w1)" "f x w1 = (res, tr2, w')" "tr = tr1 @ tr2"
proof (cases m)
  case (fields r tr1 w1)
  show ?thesis
  proof (cases r)
    case (Inl e)
    with fields assms abort show ?thesis by (simp add: and_then_def)
  next
    case (Inr x)
    obtain r2 tr2 w2 where f: "f x w1 = (r2, tr2, w2)" by (cases "f x w1")
    with fields Inr assms go show ?thesis by (simp add: and_then_def)
  qed
qed

lemma orderly_append:
  assumes "list_all (\<lambda>ev. \<not> fatal ev) tr1" "orderly err tr2"
  shows "orderly err (tr1 @ tr2)"
  using assms by (cases err) (simp_all add: orderly_def butlast_append)

lemma orderly_and_then:
  assumes "and_then m f = (res, tr, w')"
    and "\<And>r t w. m = (r, t, w) \<Longrightarrow> orderly (err_of r) t"
    and "\<And>x w r t w''. f x w = (r, t, w'') \<Longrightarrow> orderly (err_of r) t"
  shows "orderly (err_of res) tr"
proof (rule and_then_cases[OF assms(1)])
  fix e assume a: "m = (Inl e, tr, w')" "res = Inl e"
  from assms(2)[OF a(1)] a(2) show ?thesis by simp
next
  fix x tr1 w1 tr2
  assume go: "m = (Inr x, tr1, w1)" "f x w1 = (res, tr2, w')" "tr = tr1 @ tr2"
  from assms(2)[OF go(1)] have "list_all (\<lambda>ev. \<not> fatal ev) tr1" by (simp add: orderly_def)
  moreover from assms(3)[OF go(2)] have "orderly (err_of res) tr2" .
  ultimately show ?thesis unfolding go(3) by (rule orderly_append)
qed

lemma strict_and_then:
  assumes "and_then m f = (res, tr, w')"
    and "\<And>r t w. m = (r, t, w) \<Longrightarrow> strict t"
    and "\<And>x w r t w''. f x w = (r, t, w'') \<Longrightarrow> strict t"
  shows "strict tr"
proof (rule and_then_cases[OF assms(1)])
  fix e assume a: "m = (Inl e, tr, w')" "res = Inl e"
  from assms(2)[OF a(1)] show ?thesis .
next
  fix x tr1 w1 tr2
  assume go: "m = (Inr x, tr1, w1)" "f x w1 = (res, tr2, w')" "tr = tr1 @ tr2"
  with assms(2)[OF go(1)] assms(3)[OF go(2)] show ?thesis by (simp add: strict_def)
qed

lemma call_cases:
  assumes "call h op w = (r, tr, w')"
  shows "tr = [(op, r)]"
  using assms by (auto simp: call_def split: prod.splits)

lemma orderly_call:
  assumes "call h op w = (r, tr, w')" "\<And>e. \<not> swallowed op e"
  shows "orderly (err_of r) tr" "strict tr"
proof -
  from call_cases[OF assms(1)] have tr: "tr = [(op, r)]" .
  show "orderly (err_of r) tr" using tr assms(2) by (cases r) (simp_all add: orderly_def fatal_def)
  show "strict tr" using tr assms(2) by (cases r) (simp_all add: strict_def fatal_def failed_def)
qed

lemma orderly_unlink:
  assumes "unlink_unless_missing h p w = (r, tr, w')"
  shows "orderly (err_of r) tr"
proof -
  obtain r0 tr0 w0 where c: "call h (Unlink p) w = (r0, tr0, w0)" by (cases "call h (Unlink p) w")
  from call_cases[OF c] have tr0: "tr0 = [(Unlink p, r0)]" .
  show ?thesis using assms c tr0
    by (cases r0) (auto simp: unlink_unless_missing_def orderly_def fatal_def swallowed_def
        split: if_splits)
qed

lemma orderly_delete_assets:
  "delete_assets h env q still as w = (r, tr, w') \<Longrightarrow> orderly (err_of r) tr"
proof (induction as arbitrary: w r tr w')
  case Nil then show ?case by (auto simp: orderly_def)
next
  case (Cons a as)
  show ?case
  proof (cases "a \<in> set still")
    case True with Cons show ?thesis by simp
  next
    case False
    with Cons.prems have "and_then (unlink_unless_missing h (pjoin env q a) w)
          (\<lambda>u. delete_assets h env q still as) = (r, tr, w')" by simp
    then show ?thesis
    proof (rule orderly_and_then)
      show "\<And>r t w0. unlink_unless_missing h (pjoin env q a) w = (r, t, w0) \<Longrightarrow> orderly (err_of r) t"
        by (rule orderly_unlink)
      show "\<And>x w r t w''. delete_assets h env q still as w = (r, t, w'') \<Longrightarrow> orderly (err_of r) t"
        by (rule Cons.IH)
    qed
  qed
qed

lemma orderly_delete_docs:
  "delete_docs h env q entries still rels w = (r, tr, w') \<Longrightarrow> orderly (err_of r) tr"
proof (induction rels arbitrary: w r tr w')
  case Nil then show ?case by (auto simp: orderly_def)
next
  case (Cons rel rels)
  from Cons.prems have "and_then (unlink_unless_missing h (pjoin env q rel) w)
       (\<lambda>u w1. and_then (delete_assets h env q still (entry_assets (map_of entries rel)) w1)
            (\<lambda>u. delete_docs h env q entries still rels)) = (r, tr, w')" by simp
  then show ?case
  proof (rule orderly_and_then)
    fix x w0 r0 t0 w0'
    assume "and_then (delete_assets h env q still (entry_assets (map_of entries rel)) w0)
            (\<lambda>u. delete_docs h env q entries still rels) = (r0, t0, w0')"
    then show "orderly (err_of r0) t0"
    proof (rule orderly_and_then)
      show "\<And>r t w1. delete_assets h env q still (entry_assets (map_of entries rel)) w0 = (r, t, w1)
              \<Longrightarrow> orderly (err_of r) t"
        by (rule orderly_delete_assets)
      show "\<And>x w r t w''. delete_docs h env q entries still rels w = (r, t, w'') \<Longrightarrow> orderly (err_of r) t"
        by (rule Cons.IH)
    qed
  next
    show "\<And>r t w0. unlink_unless_missing h (pjoin env q rel) w = (r, t, w0) \<Longrightarrow> orderly (err_of r) t"
      by (rule orderly_unlink)
  qed
qed

lemma unlink_success:
  assumes "unlink_unless_missing h p w = (Inr u, tr, w')"
  shows "map fst tr = [Unlink p]"
proof -
  obtain r0 tr0 w0 where c: "call h (Unlink p) w = (r0, tr0, w0)" by (cases "call h (Unlink p) w")
  from call_cases[OF c] have tr0: "tr0 = [(Unlink p, r0)]" .
  show ?thesis using assms c tr0
    by (cases r0) (auto simp: unlink_unless_missing_def split: if_splits)
qed

lemma delete_assets_success:
  "delete_assets h env q still as w = (Inr u, tr, w') \<Longrightarrow>
   map fst tr = map (\<lambda>a. Unlink (pjoin env q a)) (filter (\<lambda>a. a \<notin> set still) as)"
proof (induction as arbitrary: w tr w' u)
  case Nil then show ?case by auto
next
  case (Cons a as)
  show ?case
  proof (cases "a \<in> set still")
    case True with Cons show ?thesis by simp
  next
    case False
    with Cons.prems have "and_then (unlink_unless_missing h (pjoin env q a) w)
          (\<lambda>u. delete_assets h env q still as) = (Inr u, tr, w')" by simp
    then show ?thesis
    proof (rule and_then_cases)
      fix e assume "Inr u = (Inl e :: errno + unit)" then show ?thesis by simp
    next
      fix x tr1 w1 tr2
      assume go: "unlink_unless_missing h (pjoin env q a) w = (Inr x, tr1, w1)"
        "delete_assets h env q still as w1 = (Inr u, tr2, w')" "tr = tr1 @ tr2"
      from unlink_success[OF go(1)] Cons.IH[OF go(2)] go(3) False show ?thesis by simp
    qed
  qed
qed

lemma delete_docs_success:
  "delete_docs h env q entries still rels w = (Inr u, tr, w') \<Longrightarrow>
   map fst tr = concat (map (delete_ops env q entries still) rels)"
proof (induction rels arbitrary: w tr w' u)
  case Nil then show ?case by auto
next
  case (Cons rel rels)
  from Cons.prems have "and_then (unlink_unless_missing h (pjoin env q rel) w)
       (\<lambda>u w1. and_then (delete_assets h env q still (entry_assets (map_of entries rel)) w1)
            (\<lambda>u. delete_docs h env q entries still rels)) = (Inr u, tr, w')" by simp
  then show ?case
  proof (rule and_then_cases)
    fix e assume "Inr u = (Inl e :: errno + unit)" then show ?thesis by simp
  next
    fix x tr1 w1 tr2
    assume go: "unlink_unless_missing h (pjoin env q rel) w = (Inr x, tr1, w1)"
      "and_then (delete_assets h env q still (entry_assets (map_of entries rel)) w1)
            (\<lambda>u. delete_docs h env q entries still rels) = (Inr u, tr2, w')" "tr = tr1 @ tr2"
    from go(2) show ?thesis
    proof (rule and_then_cases)
      fix e assume "Inr u = (Inl e :: errno + unit)" then show ?thesis by simp
    next
      fix y tr3 w3 tr4
      assume go2: "delete_assets h env q still (entry_assets (map_of entries rel)) w1 = (Inr y, tr3, w3)"
        "delete_docs h env q entries still rels w3 = (Inr u, tr4, w')" "tr2 = tr3 @ tr4"
      from unlink_success[OF go(1)] delete_assets_success[OF go2(1)] Cons.IH[OF go2(2)] go(3) go2(3)
      show ?thesis by (simp add: delete_ops_def)
    qed
  qed
qed

lemma remove_empty_dirs_result:
  "remove_empty_dirs h env q ds w = (r, tr, w') \<Longrightarrow>
   r = Inr () \<and> list_all (\<lambda>ev. is_dir_op (fst ev)) tr"
proof (induction ds arbitrary: w r tr w')
  case Nil then show ?case by auto
next
  case (Cons d ds)
  show ?case
  proof (cases "d = [] \<or> d = js ''.''")
    case True with Cons show ?thesis by simp
  next
    case False
    obtain r1 tr1 w1 where c1: "call h (Readdir (pjoin env q d)) w = (r1, tr1, w1)"
      by (cases "call h (Readdir (pjoin env q d)) w")
    from call_cases[OF c1] have t1: "tr1 = [(Readdir (pjoin env q d), r1)]" .
    obtain r2 tr2 w2 where c2: "call h (Rmdir (pjoin env q d)) w1 = (r2, tr2, w2)"
      by (cases "call h (Rmdir (pjoin env q d)) w1")
    from call_cases[OF c2] have t2: "tr2 = [(Rmdir (pjoin env q d), r2)]" .
    obtain tr0 w0 where rest: "and_then (Inr (), tr0, w0) (\<lambda>u. remove_empty_dirs h env q ds) = (r, tr, w')"
      and tr0: "tr0 = tr1 \<or> tr0 = tr1 @ tr2"
      using Cons.prems False c1 c2
      by (cases r1) (auto simp: Let_def split: if_splits)
    from rest show ?thesis
    proof (rule and_then_cases)
      fix e assume "(Inr (), tr0, w0) = (Inl e, tr, w')" then show ?thesis by simp
    next
      fix x tr3 w3 tr4
      assume go: "(Inr (), tr0, w0) = (Inr x, tr3, w3)"
        "remove_empty_dirs h env q ds w3 = (r, tr4, w')" "tr = tr3 @ tr4"
      from Cons.IH[OF go(2)] go(1) go(3) tr0 t1 t2 show ?thesis
        by (auto simp: is_dir_op_def)
    qed
  qed
qed

lemma copy_assets_success:
  "copy_assets h env cid as w = (Inr paths, tr, w') \<Longrightarrow>
   paths = map (\<lambda>a. assetDest (slugifiedBasename a)) as \<and>
   map fst tr = map (\<lambda>a. CopyFile (sourcePath a) (pjoin env cid (slugifiedBasename a))) as"
proof (induction as arbitrary: w paths tr w')
  case Nil then show ?case by auto
next
  case (Cons a as)
  from Cons.prems have "and_then
       (call h (CopyFile (sourcePath a) (pjoin env cid (slugifiedBasename a))) w)
       (\<lambda>names w1.
          and_then (copy_assets h env cid as w1)
            (\<lambda>paths w2. (Inr (assetDest (slugifiedBasename a) # paths), [], w2))) = (Inr paths, tr, w')"
    by simp
  then show ?case
  proof (rule and_then_cases)
    fix e assume "Inr paths = (Inl e :: errno + path list)" then show ?thesis by simp
  next
    fix x tr1 w1 tr2
    assume go: "call h (CopyFile (sourcePath a) (pjoin env cid (slugifiedBasename a))) w = (Inr x, tr1, w1)"
      "and_then (copy_assets h env cid as w1)
            (\<lambda>paths w2. (Inr (assetDest (slugifiedBasename a) # paths), [], w2)) = (Inr paths, tr2, w')"
      "tr = tr1 @ tr2"
    from go(2) show ?thesis
    proof (rule and_then_cases)
      fix e assume "Inr paths = (Inl e :: errno + path list)" then show ?thesis by simp
    next
      fix ps tr3 w3 tr4
      assume go2: "copy_assets h env cid as w1 = (Inr ps, tr3, w3)"
        "(Inr (assetDest (slugifiedBasename a) # ps), [], w3) = (Inr paths, tr4, w')" "tr2 = tr3 @ tr4"
      from call_cases[OF go(1)] Cons.IH[OF go2(1)] go(3) go2(2) go2(3) show ?thesis by auto
    qed
  qed
qed

lemma materialize_success:
  assumes "materialize h env q rel data w = (Inr entry, tr, w')"
  shows "entry = fresh_entry data \<and> map fst tr = write_ops env q rel data"
proof -
  from assms have "and_then (call h (Mkdir (dirname (pjoin env q rel))) w)
           (\<lambda>names w1.
              and_then (copy_assets h env (pjoin env q (js ''image'')) (d_assets data) w1)
                (\<lambda>assetPathsInContent w2.
                   and_then
                     (call h (WriteFile (pjoin env q rel)
                                (convertContentForQuartz (d_content data) (d_assets data))) w2)
                     (\<lambda>names w3.
                        (Inr \<lparr>m_mtime = d_mtime data, m_assets = Some assetPathsInContent\<rparr>,
                         [], w3)))) = (Inr entry, tr, w')"
    by (simp add: materialize_def Let_def)
  then show ?thesis
  proof (rule and_then_cases)
    fix e assume "Inr entry = (Inl e :: errno + manifest_entry)" then show ?thesis by simp
  next
    fix x tr1 w1 tr2
    assume go: "call h (Mkdir (dirname (pjoin env q rel))) w = (Inr x, tr1, w1)"
      "and_then (copy_assets h env (pjoin env q (js ''image'')) (d_assets data) w1)
                (\<lambda>assetPathsInContent w2.
                   and_then
                     (call h (WriteFile (pjoin env q rel)
                                (convertContentForQuartz (d_content data) (d_assets data))) w2)
                     (\<lambda>names w3.
                        (Inr \<lparr>m_mtime = d_mtime data, m_assets = Some assetPathsInContent\<rparr>,
                         [], w3))) = (Inr entry, tr2, w')"
      "tr = tr1 @ tr2"
    from go(2) show ?thesis
    proof (rule and_then_cases)
      fix e assume "Inr entry = (Inl e :: errno + manifest_entry)" then show ?thesis by simp
    next
      fix ps tr3 w3 tr4
      assume go2: "copy_assets h env (pjoin env q (js ''image'')) (d_assets data) w1 = (Inr ps, tr3, w3)"
        "and_then
           (call h (WriteFile (pjoin env q rel)
                      (convertContentForQuartz (d_content data) (d_assets data))) w3)
           (\<lambda>names w3. (Inr \<lparr>m_mtime = d_mtime data, m_assets = Some ps\<rparr>, [], w3))
         = (Inr entry, tr4, w')"
        "tr2 = tr3 @ tr4"
      from go2(2) show ?thesis
      proof (rule and_then_cases)
        fix e assume "Inr entry = (Inl e :: errno + manifest_entry)" then show ?thesis by simp
      next
        fix y tr5 w5 tr6
        assume go3: "call h (WriteFile (pjoin env q rel)
                      (convertContentForQuartz (d_content data) (d_assets data))) w3 = (Inr y, tr5, w5)"
          "(Inr \<lparr>m_mtime = d_mtime data, m_assets = Some ps\<rparr>, [], w5) = (Inr entry, tr6, w')"
          "tr4 = tr5 @ tr6"
        from call_cases[OF go(1)] call_cases[OF go3(1)] copy_assets_success[OF go2(1)]
          go(3) go2(3) go3(2) go3(3)
        show ?thesis by (auto simp: fresh_entry_def write_ops_def)
      qed
    qed
  qed
qed

lemma map_set_fresh: "k \<notin> fst ` set m \<Longrightarrow> map_set m k v = m @ [(k, v)]"
  by (induction m k v rule: map_set.induct) auto

lemma add_update_success:
  "add_update h env q entries snap acc w = (Inr m1, tr, w') \<Longrightarrow>
   distinct (map fst snap) \<Longrightarrow> fst ` set snap \<inter> fst ` set acc = {} \<Longrightarrow>
   m1 = acc @ map (\<lambda>d. (fst d, entry_for entries (fst d) (snd d))) snap \<and>
   map fst tr = concat (map (planned_ops env q entries) snap)"
proof (induction snap arbitrary: acc w tr w')
  case Nil then show ?case by auto
next
  case (Cons d snap)
  obtain rel data where d: "d = (rel, data)" by (cases d)
  from Cons.prems d have fresh: "rel \<notin> fst ` set acc" by auto
  from Cons.prems d have dist: "distinct (map fst snap)" and nin: "rel \<notin> fst ` set snap" by auto
  have disj: "\<And>e. fst ` set snap \<inter> fst ` set (acc @ [(rel, e)]) = {}"
    using Cons.prems(3) nin d by auto
  show ?case
  proof (cases "carried entries rel data")
    case (Some prev)
    with Cons.prems(1) d fresh
    have "add_update h env q entries snap (acc @ [(rel, prev)]) w = (Inr m1, tr, w')"
      by (simp add: map_set_fresh)
    from Cons.IH[OF this dist disj] Some d show ?thesis
      by (simp add: entry_for_def planned_ops_def)
  next
    case None
    with Cons.prems(1) d have "and_then (materialize h env q rel data w)
            (\<lambda>entry. add_update h env q entries snap (map_set acc rel entry)) = (Inr m1, tr, w')"
      by simp
    then show ?thesis
    proof (rule and_then_cases)
      fix e assume "Inr m1 = (Inl e :: errno + manifest)" then show ?thesis by simp
    next
      fix entry tr1 w1 tr2
      assume go: "materialize h env q rel data w = (Inr entry, tr1, w1)"
        "add_update h env q entries snap (map_set acc rel entry) w1 = (Inr m1, tr2, w')"
        "tr = tr1 @ tr2"
      from go(2) fresh have "add_update h env q entries snap (acc @ [(rel, entry)]) w1 = (Inr m1, tr2, w')"
        by (simp add: map_set_fresh)
      from Cons.IH[OF this dist disj] materialize_success[OF go(1)] go(3) None d show ?thesis
        by (simp add: entry_for_def planned_ops_def)
    qed
  qed
qed

lemma strict_append: "strict (a @ b) \<longleftrightarrow> strict a \<and> strict b"
  by (simp add: strict_def)

lemma tidy_and_then:
  assumes "and_then m f = (res, tr, w')"
    and "\<And>r t w. m = (r, t, w) \<Longrightarrow> tidy (err_of r) t"
    and "\<And>x w r t w''. f x w = (r, t, w'') \<Longrightarrow> tidy (err_of r) t"
  shows "tidy (err_of res) tr"
  unfolding tidy_def
proof
  show "orderly (err_of res) tr"
  proof (rule orderly_and_then[OF assms(1)])
    show "\<And>r t w. m = (r, t, w) \<Longrightarrow> orderly (err_of r) t"
      using assms(2) by (simp add: tidy_def)
    show "\<And>x w r t w''. f x w = (r, t, w'') \<Longrightarrow> orderly (err_of r) t"
      using assms(3) by (simp add: tidy_def)
  qed
  show "strict tr"
  proof (rule strict_and_then[OF assms(1)])
    show "\<And>r t w. m = (r, t, w) \<Longrightarrow> strict t"
      using assms(2) by (simp add: tidy_def)
    show "\<And>x w r t w''. f x w = (r, t, w'') \<Longrightarrow> strict t"
      using assms(3) by (simp add: tidy_def)
  qed
qed

lemma tidy_call:
  assumes "call h op w = (r, tr, w')" "\<And>e. \<not> swallowed op e"
  shows "tidy (err_of r) tr"
  using orderly_call[OF assms] by (simp add: tidy_def)

lemma tidy_return: "(Inr x, [], w) = (r, t, w') \<Longrightarrow> tidy (err_of r) t"
  by (auto simp: tidy_def orderly_def strict_def)

lemma tidy_copy_assets:
  "copy_assets h env cid as w = (r, tr, w') \<Longrightarrow> tidy (err_of r) tr"
proof (induction as arbitrary: w r tr w')
  case Nil then show ?case by (auto simp: tidy_def orderly_def strict_def)
next
  case (Cons a as)
  from Cons.prems have eq: "and_then
       (call h (CopyFile (sourcePath a) (pjoin env cid (slugifiedBasename a))) w)
       (\<lambda>names w1.
          and_then (copy_assets h env cid as w1)
            (\<lambda>paths w2. (Inr (assetDest (slugifiedBasename a) # paths), [], w2))) = (r, tr, w')"
    by simp
  show ?case
  proof (rule tidy_and_then[OF eq])
    fix r0 t0 w0
    assume "call h (CopyFile (sourcePath a) (pjoin env cid (slugifiedBasename a))) w = (r0, t0, w0)"
    then show "tidy (err_of r0) t0" by (rule tidy_call) (simp add: swallowed_def)
  next
    fix x w0 r0 t0 w0'
    assume eq2: "and_then (copy_assets h env cid as w0)
            (\<lambda>paths w2. (Inr (assetDest (slugifiedBasename a) # paths), [], w2)) = (r0, t0, w0')"
    show "tidy (err_of r0) t0"
    proof (rule tidy_and_then[OF eq2])
      show "\<And>r t w1. copy_assets h env cid as w0 = (r, t, w1) \<Longrightarrow> tidy (err_of r) t"
        by (rule Cons.IH)
      show "\<And>x w r t w''. (Inr (assetDest (slugifiedBasename a) # x), [], w) = (r, t, w'')
              \<Longrightarrow> tidy (err_of r) t"
        by (rule tidy_return)
    qed
  qed
qed

lemma tidy_materialize:
  assumes "materialize h env q rel data w = (r, tr, w')"
  shows "tidy (err_of r) tr"
proof -
  from assms have eq: "and_then (call h (Mkdir (dirname (pjoin env q rel))) w)
           (\<lambda>names w1.
              and_then (copy_assets h env (pjoin env q (js ''image'')) (d_assets data) w1)
                (\<lambda>assetPathsInContent w2.
                   and_then
                     (call h (WriteFile (pjoin env q rel)
                                (convertContentForQuartz (d_content data) (d_assets data))) w2)
                     (\<lambda>names w3.
                        (Inr \<lparr>m_mtime = d_mtime data, m_assets = Some assetPathsInContent\<rparr>,
                         [], w3)))) = (r, tr, w')"
    by (simp add: materialize_def Let_def)
  show ?thesis
  proof (rule tidy_and_then[OF eq])
    fix r0 t0 w0
    assume "call h (Mkdir (dirname (pjoin env q rel))) w = (r0, t0, w0)"
    then show "tidy (err_of r0) t0" by (rule tidy_call) (simp add: swallowed_def)
  next
    fix x w0 r0 t0 w0'
    assume eq2: "and_then (copy_assets h env (pjoin env q (js ''image'')) (d_assets data) w0)
                (\<lambda>assetPathsInContent w2.
                   and_then
                     (call h (WriteFile (pjoin env q rel)
                                (convertContentForQuartz (d_content data) (d_assets data))) w2)
                     (\<lambda>names w3.
                        (Inr \<lparr>m_mtime = d_mtime data, m_assets = Some assetPathsInContent\<rparr>,
                         [], w3))) = (r0, t0, w0')"
    show "tidy (err_of r0) t0"
    proof (rule tidy_and_then[OF eq2])
      show "\<And>r t w1. copy_assets h env (pjoin env q (js ''image'')) (d_assets data) w0 = (r, t, w1)
              \<Longrightarrow> tidy (err_of r) t"
        by (rule tidy_copy_assets)
    next
      fix ps w2 r2 t2 w2'
      assume eq3: "and_then
                     (call h (WriteFile (pjoin env q rel)
                                (convertContentForQuartz (d_content data) (d_assets data))) w2)
                     (\<lambda>names w3.
                        (Inr \<lparr>m_mtime = d_mtime data, m_assets = Some ps\<rparr>, [], w3))
                   = (r2, t2, w2')"
      show "tidy (err_of r2) t2"
      proof (rule tidy_and_then[OF eq3])
        fix r3 t3 w3
        assume "call h (WriteFile (pjoin env q rel)
                  (convertContentForQuartz (d_content data) (d_assets data))) w2 = (r3, t3, w3)"
        then show "tidy (err_of r3) t3" by (rule tidy_call) (simp add: swallowed_def)
      next
        show "\<And>x w r t w''. (Inr \<lparr>m_mtime = d_mtime data, m_assets = Some ps\<rparr>, [], w) = (r, t, w'')
                \<Longrightarrow> tidy (err_of r) t"
          by (rule tidy_return)
      qed
    qed
  qed
qed

lemma tidy_add_update:
  "add_update h env q entries snap acc w = (r, tr, w') \<Longrightarrow> tidy (err_of r) tr"
proof (induction snap arbitrary: acc w r tr w')
  case Nil then show ?case by (auto simp: tidy_def orderly_def strict_def)
next
  case (Cons d snap)
  obtain rel data where d: "d = (rel, data)" by (cases d)
  show ?case
  proof (cases "carried entries rel data")
    case (Some prev)
    with Cons.prems d have "add_update h env q entries snap (map_set acc rel prev) w = (r, tr, w')"
      by simp
    then show ?thesis by (rule Cons.IH)
  next
    case None
    with Cons.prems d have eq: "and_then (materialize h env q rel data w)
            (\<lambda>entry. add_update h env q entries snap (map_set acc rel entry)) = (r, tr, w')"
      by simp
    show ?thesis
    proof (rule tidy_and_then[OF eq])
      show "\<And>r t w0. materialize h env q rel data w = (r, t, w0) \<Longrightarrow> tidy (err_of r) t"
        by (rule tidy_materialize)
      show "\<And>x w r t w''. add_update h env q entries snap (map_set acc rel x) w = (r, t, w'')
              \<Longrightarrow> tidy (err_of r) t"
        by (rule Cons.IH)
    qed
  qed
qed

lemma add_update_phase_tidy:
  assumes "add_update_phase h env q entries snap w = (r, tr, w')"
  shows "tidy (err_of r) tr \<and> tr \<noteq> []"
proof -
  from assms have eq: "and_then (call h (Mkdir (pjoin env q (js ''image''))) w)
       (\<lambda>names w1.
          and_then (add_update h env q entries snap [] w1)
            (\<lambda>newEntries w2.
               and_then (call h (WriteManifest newEntries) w2)
                 (\<lambda>names w3. (Inr newEntries, [], w3)))) = (r, tr, w')"
    by (simp add: add_update_phase_def)
  have "tidy (err_of r) tr"
  proof (rule tidy_and_then[OF eq])
    fix r0 t0 w0
    assume "call h (Mkdir (pjoin env q (js ''image''))) w = (r0, t0, w0)"
    then show "tidy (err_of r0) t0" by (rule tidy_call) (simp add: swallowed_def)
  next
    fix x w0 r0 t0 w0'
    assume eq2: "and_then (add_update h env q entries snap [] w0)
            (\<lambda>newEntries w2.
               and_then (call h (WriteManifest newEntries) w2)
                 (\<lambda>names w3. (Inr newEntries, [], w3))) = (r0, t0, w0')"
    show "tidy (err_of r0) t0"
    proof (rule tidy_and_then[OF eq2])
      show "\<And>r t w1. add_update h env q entries snap [] w0 = (r, t, w1) \<Longrightarrow> tidy (err_of r) t"
        by (rule tidy_add_update)
    next
      fix m w2 r2 t2 w2'
      assume eq3: "and_then (call h (WriteManifest m) w2) (\<lambda>names w3. (Inr m, [], w3)) = (r2, t2, w2')"
      show "tidy (err_of r2) t2"
      proof (rule tidy_and_then[OF eq3])
        fix r3 t3 w3
        assume "call h (WriteManifest m) w2 = (r3, t3, w3)"
        then show "tidy (err_of r3) t3" by (rule tidy_call) (simp add: swallowed_def)
      next
        show "\<And>x w r t w''. (Inr m, [], w) = (r, t, w'') \<Longrightarrow> tidy (err_of r) t"
          by (rule tidy_return)
      qed
    qed
  qed
  moreover have "tr \<noteq> []"
  proof (rule and_then_cases[OF eq])
    fix e assume "call h (Mkdir (pjoin env q (js ''image''))) w = (Inl e, tr, w')"
    from call_cases[OF this] show ?thesis by simp
  next
    fix x tr1 w1 tr2
    assume c: "call h (Mkdir (pjoin env q (js ''image''))) w = (Inr x, tr1, w1)" and t: "tr = tr1 @ tr2"
    from call_cases[OF c] t show ?thesis by simp
  qed
  ultimately show ?thesis ..
qed

lemma add_update_phase_success:
  assumes "add_update_phase h env q entries snap w = (Inr m1, tr, w')"
  shows "\<exists>x y tr_add w1 w2.
           add_update h env q entries snap [] w1 = (Inr m1, tr_add, w2) \<and>
           tr = (Mkdir (pjoin env q (js ''image'')), Inr x) # tr_add @ [(WriteManifest m1, Inr y)]"
proof -
  from assms have eq: "and_then (call h (Mkdir (pjoin env q (js ''image''))) w)
       (\<lambda>names w1.
          and_then (add_update h env q entries snap [] w1)
            (\<lambda>newEntries w2.
               and_then (call h (WriteManifest newEntries) w2)
                 (\<lambda>names w3. (Inr newEntries, [], w3)))) = (Inr m1, tr, w')"
    by (simp add: add_update_phase_def)
  show ?thesis
  proof (rule and_then_cases[OF eq])
    fix e assume "Inr m1 = (Inl e :: errno + manifest)" then show ?thesis by simp
  next
    fix x tr1 w1 tr2
    assume go: "call h (Mkdir (pjoin env q (js ''image''))) w = (Inr x, tr1, w1)"
      "and_then (add_update h env q entries snap [] w1)
            (\<lambda>newEntries w2.
               and_then (call h (WriteManifest newEntries) w2)
                 (\<lambda>names w3. (Inr newEntries, [], w3))) = (Inr m1, tr2, w')"
      "tr = tr1 @ tr2"
    show ?thesis
    proof (rule and_then_cases[OF go(2)])
      fix e assume "Inr m1 = (Inl e :: errno + manifest)" then show ?thesis by simp
    next
      fix m tr3 w3 tr4
      assume go2: "add_update h env q entries snap [] w1 = (Inr m, tr3, w3)"
        "and_then (call h (WriteManifest m) w3) (\<lambda>names w3. (Inr m, [], w3)) = (Inr m1, tr4, w')"
        "tr2 = tr3 @ tr4"
      show ?thesis
      proof (rule and_then_cases[OF go2(2)])
        fix e assume "Inr m1 = (Inl e :: errno + manifest)" then show ?thesis by simp
      next
        fix y tr5 w5 tr6
        assume go3: "call h (WriteManifest m) w3 = (Inr y, tr5, w5)"
          "(Inr m, [], w5) = (Inr m1, tr6, w')" "tr4 = tr5 @ tr6"
        from go3(2) have m: "m = m1" "tr6 = []" by simp_all
        from call_cases[OF go(1)] call_cases[OF go3(1)] go(3) go2(3) go3(3) m
        have "tr = (Mkdir (pjoin env q (js ''image'')), Inr x) # tr3 @ [(WriteManifest m1, Inr y)]"
          by simp
        with go2(1) m show ?thesis by blast
      qed
    qed
  qed
qed

lemma run_cases:
  assumes "run h env obs q entries w = (res, tr, w')"
  obtains (scan) e where "getPublishableSet env obs = Inl e" "res = Inl e" "tr = []"
  | (deleting) snap e where "getPublishableSet env obs = Inr snap"
      "delete_docs h env q entries (assetsStillReferenced snap) (toDeleteMd entries snap) w
         = (Inl e, tr, w')" "res = Inl e"
  | (writing) snap tr_del w1 tr_dirs w2 tr_add where "getPublishableSet env obs = Inr snap"
      "delete_docs h env q entries (assetsStillReferenced snap) (toDeleteMd entries snap) w
         = (Inr (), tr_del, w1)"
      "remove_empty_dirs h env q (dirsToCheck (toDeleteMd entries snap)) w1 = (Inr (), tr_dirs, w2)"
      "add_update_phase h env q entries snap w2 = (res, tr_add, w')"
      "tr = tr_del @ tr_dirs @ tr_add"
proof (cases "getPublishableSet env obs")
  case (Inl e)
  with assms scan show ?thesis by (simp add: run_def)
next
  case (Inr snap)
  with assms have eq: "and_then
      (delete_docs h env q entries (assetsStillReferenced snap) (toDeleteMd entries snap) w)
      (\<lambda>u w1. and_then (remove_empty_dirs h env q (dirsToCheck (toDeleteMd entries snap)) w1)
                 (\<lambda>u. add_update_phase h env q entries snap)) = (res, tr, w')"
    by (simp add: run_def Let_def)
  show ?thesis
  proof (rule and_then_cases[OF eq])
    fix e
    assume "delete_docs h env q entries (assetsStillReferenced snap) (toDeleteMd entries snap) w
              = (Inl e, tr, w')" "res = Inl e"
    with Inr deleting show ?thesis by blast
  next
    fix u tr1 w1 tr2
    assume go: "delete_docs h env q entries (assetsStillReferenced snap) (toDeleteMd entries snap) w
              = (Inr u, tr1, w1)"
      "and_then (remove_empty_dirs h env q (dirsToCheck (toDeleteMd entries snap)) w1)
                 (\<lambda>u. add_update_phase h env q entries snap) = (res, tr2, w')"
      "tr = tr1 @ tr2"
    show ?thesis
    proof (rule and_then_cases[OF go(2)])
      fix e
      assume "remove_empty_dirs h env q (dirsToCheck (toDeleteMd entries snap)) w1 = (Inl e, tr2, w')"
      from remove_empty_dirs_result[OF this] show ?thesis by simp
    next
      fix u2 tr3 w3 tr4
      assume go2: "remove_empty_dirs h env q (dirsToCheck (toDeleteMd entries snap)) w1 = (Inr u2, tr3, w3)"
        "add_update_phase h env q entries snap w3 = (res, tr4, w')" "tr2 = tr3 @ tr4"
      from go(1) go2 go(3) Inr writing show ?thesis by simp
    qed
  qed
qed

lemma orderly_index:
  assumes "orderly err tr" "i < length tr" "fatal (tr ! i)"
  shows "Suc i = length tr \<and> (\<exists>e. err = Some e \<and> snd (tr ! i) = Inl e)"
proof (cases err)
  case None
  with assms show ?thesis by (auto simp: orderly_def list_all_length)
next
  case (Some e)
  with assms(1) have ne: "tr \<noteq> []" and bl: "list_all (\<lambda>ev. \<not> fatal ev) (butlast tr)"
    and la: "snd (last tr) = Inl e" by (simp_all add: orderly_def)
  have "\<not> i < length (butlast tr)"
  proof
    assume "i < length (butlast tr)"
    with bl have "\<not> fatal (butlast tr ! i)" by (simp add: list_all_length)
    with \<open>i < length (butlast tr)\<close> assms(3) show False by (simp add: nth_butlast)
  qed
  with assms(2) have i: "Suc i = length tr" by simp
  with ne have "last tr = tr ! i" by (metis diff_Suc_1 last_conv_nth)
  with la i Some show ?thesis by simp
qed

lemma dir_ops_not_fatal:
  "list_all (\<lambda>ev. is_dir_op (fst ev)) tr \<Longrightarrow> list_all (\<lambda>ev. \<not> fatal ev) tr"
  by (induction tr) (auto simp: is_dir_op_def fatal_def swallowed_def split: fs_op.splits sum.splits)

lemma run_orderly:
  assumes "run h env obs q entries w = (res, tr, w')" "tr \<noteq> []"
  shows "orderly (err_of res) tr \<and> (failed (last tr) \<longrightarrow> fatal (last tr))"
  using assms(1)
proof (cases rule: run_cases)
  case (scan e)
  with assms(2) show ?thesis by simp
next
  case (deleting snap e)
  from orderly_delete_docs[OF deleting(2)] deleting(3) show ?thesis
    by (simp add: orderly_def)
next
  case (writing snap tr_del w1 tr_dirs w2 tr_add)
  from orderly_delete_docs[OF writing(2)] have d: "list_all (\<lambda>ev. \<not> fatal ev) tr_del"
    by (simp add: orderly_def)
  from remove_empty_dirs_result[OF writing(3)] have r: "list_all (\<lambda>ev. \<not> fatal ev) tr_dirs"
    by (simp add: dir_ops_not_fatal)
  from add_update_phase_tidy[OF writing(4)]
  have t: "orderly (err_of res) tr_add" "strict tr_add" "tr_add \<noteq> []" by (simp_all add: tidy_def)
  from d r have "list_all (\<lambda>ev. \<not> fatal ev) (tr_del @ tr_dirs)" by simp
  from orderly_append[OF this t(1)] writing(5) have "orderly (err_of res) tr" by simp
  moreover from t(3) writing(5) have "last tr = last tr_add" by simp
  moreover from t(2) t(3) have "failed (last tr_add) = fatal (last tr_add)"
    by (simp add: strict_def list_all_iff)
  ultimately show ?thesis by simp
qed

lemma run_success:
  assumes "run h env obs q entries w = (Inr m1, tr, w')"
  obtains snap tr_dirs where "getPublishableSet env obs = Inr snap"
    "m1 = map (\<lambda>d. (fst d, entry_for entries (fst d) (snd d))) snap"
    "list_all is_dir_op tr_dirs"
    "map fst tr =
       concat (map (delete_ops env q entries (assetsStillReferenced snap)) (toDeleteMd entries snap)) @
       tr_dirs @
       Mkdir (pjoin env q (js ''image'')) # concat (map (planned_ops env q entries) snap) @
       [WriteManifest m1]"
  using assms
proof (cases rule: run_cases)
  case (scan e) then show ?thesis by simp
next
  case (deleting snap e) then show ?thesis by simp
next
  case (writing snap tr_del w1 tr_dirs w2 tr_add)
  from add_update_phase_success[OF writing(4)] obtain x y tr_a w3 w4 where
    au: "add_update h env q entries snap [] w3 = (Inr m1, tr_a, w4)"
    and ta: "tr_add = (Mkdir (pjoin env q (js ''image'')), Inr x) # tr_a @ [(WriteManifest m1, Inr y)]"
    by blast
  from add_update_success[OF au snapshot_distinct[OF writing(1)]]
  have m1: "m1 = map (\<lambda>d. (fst d, entry_for entries (fst d) (snd d))) snap"
    and ops: "map fst tr_a = concat (map (planned_ops env q entries) snap)" by simp_all
  from remove_empty_dirs_result[OF writing(3)] have "list_all is_dir_op (map fst tr_dirs)"
    by (simp add: list_all_iff)
  moreover from delete_docs_success[OF writing(2)] ops ta writing(5)
  have "map fst tr =
       concat (map (delete_ops env q entries (assetsStillReferenced snap)) (toDeleteMd entries snap)) @
       map fst tr_dirs @
       Mkdir (pjoin env q (js ''image'')) # concat (map (planned_ops env q entries) snap) @
       [WriteManifest m1]" by simp
  ultimately show ?thesis using that writing(1) m1 by blast
qed

section \<open>Failure policy of the delete phase\<close>

text \<open>
  C7. The claim is that during the delete phase a not-found error is passed over and
  every other error aborts the run, for the removal of a document, of an asset and of an
  emptied directory alike. With a directory that may not be removed, \<^verbatim>\<open>rmdir\<close> fails
  with \<open>EACCES\<close> and the run goes on to write the manifest and succeeds.
\<close>

theorem C7_rmdir_error_swallowed:
  "run locked_fs env_gone VAULT SITE manifest_d [js ''/q/d/a.md''] =
   (Inr [],
    [(Unlink (js ''/q/d/a.md''), Inr []), (Readdir (js ''/q/d''), Inr []),
     (Rmdir (js ''/q/d''), Inl EACCES), (Mkdir (js ''/q/image''), Inr []),
     (WriteManifest [], Inr [])],
    [])"
  by code_simp

text \<open>
  C7, as amended. In every run, a call that fails is either passed over, and then another
  call follows it, or it is the last call of the run and the run fails with its error.
  Passed over are: \<open>ENOENT\<close> of an \<^verbatim>\<open>unlink\<close> (of a document or of an asset), and any error
  at all of the \<^verbatim>\<open>readdir\<close> and \<^verbatim>\<open>rmdir\<close> that remove an emptied directory.
\<close>

theorem C7_failure_policy:
  assumes "run h env obs q entries w = (res, tr, w')"
  shows "\<forall>i<length tr. \<forall>op e. tr ! i = (op, Inl e) \<longrightarrow>
           (if swallowed op e then Suc i < length tr else Suc i = length tr \<and> res = Inl e)"
proof (intro allI impI)
  fix i op e
  assume i: "i < length tr" and ev: "tr ! i = (op, Inl e)"
  then have ne: "tr \<noteq> []" by auto
  from run_orderly[OF assms ne]
  have ord: "orderly (err_of res) tr" and la: "failed (last tr) \<longrightarrow> fatal (last tr)" by simp_all
  show "if swallowed op e then Suc i < length tr else Suc i = length tr \<and> res = Inl e"
  proof (cases "swallowed op e")
    case True
    have "Suc i \<noteq> length tr"
    proof
      assume "Suc i = length tr"
      with ne have "last tr = tr ! i" by (metis diff_Suc_1 last_conv_nth)
      with ev la True show False by (simp add: failed_def fatal_def)
    qed
    with i True show ?thesis by simp
  next
    case False
    with ev have "fatal (tr ! i)" by (simp add: fatal_def)
    from orderly_index[OF ord i this] ev have "Suc i = length tr" "err_of res = Some e" by auto
    moreover from this(2) have "res = Inl e" by (cases res) simp_all
    ultimately show ?thesis using False by simp
  qed
qed

theorem C7_failure_policy_witness:
  "swallowed (Rmdir (js ''/q/d'')) EACCES \<and>
   Suc 2 < length (fst (snd (run locked_fs env_gone VAULT SITE manifest_d [js ''/q/d/a.md'']))) \<and>
   \<not> swallowed (Unlink (js ''/q/d/a.md'')) EACCES \<and>
   run readonly_fs env_gone VAULT SITE manifest_d [js ''/q/d/a.md''] =
     (Inl EACCES, [(Unlink (js ''/q/d/a.md''), Inl EACCES)], [js ''/q/d/a.md''])"
proof -
  have r1: "run locked_fs env_gone VAULT SITE manifest_d [js ''/q/d/a.md''] =
   (Inr [],
    [(Unlink (js ''/q/d/a.md''), Inr []), (Readdir (js ''/q/d''), Inr []),
     (Rmdir (js ''/q/d''), Inl EACCES), (Mkdir (js ''/q/image''), Inr []),
     (WriteManifest [], Inr [])],
    [])"
    by code_simp
  have r2: "run readonly_fs env_gone VAULT SITE manifest_d [js ''/q/d/a.md''] =
     (Inl EACCES, [(Unlink (js ''/q/d/a.md''), Inl EACCES)], [js ''/q/d/a.md''])"
    by code_simp
  have s1: "swallowed (Rmdir (js ''/q/d'')) EACCES" by (simp add: swallowed_def)
  have s2: "\<not> swallowed (Unlink (js ''/q/d/a.md'')) EACCES" by (simp add: swallowed_def)
  from C7_failure_policy [OF r1, rule_format, of 2 "Rmdir (js ''/q/d'')" EACCES] s1
  have "Suc 2 < length (fst (snd (run locked_fs env_gone VAULT SITE manifest_d [js ''/q/d/a.md''])))"
    by (simp add: r1)
  moreover from C7_failure_policy [OF r2, rule_format, of 0 "Unlink (js ''/q/d/a.md'')" EACCES] s2
  have "(Inl EACCES :: errno + manifest) = Inl EACCES" by simp
  ultimately show ?thesis using s1 s2 r2 by blast
qed

section \<open>Asset reference counting\<close>

lemma filter_unlink_delete_ops:
  "filter is_unlink (concat (map (delete_ops env q entries still) rels)) =
   concat (map (delete_ops env q entries still) rels)"
  by (induction rels) (auto simp: delete_ops_def is_unlink_def filter_map comp_def)

lemma filter_unlink_dirs: "list_all is_dir_op ops \<Longrightarrow> filter is_unlink ops = []"
  by (induction ops) (auto simp: is_dir_op_def is_unlink_def split: fs_op.splits)

lemma filter_unlink_planned:
  "filter is_unlink (concat (map (planned_ops env q entries) snap)) = []"
  by (induction snap)
     (auto simp: planned_ops_def write_ops_def is_unlink_def filter_map comp_def split: option.splits)

text \<open>
  C2. The \<^verbatim>\<open>unlink\<close> calls of a run that succeeds are, for each manifest key that is not in
  the snapshot and in the order of the manifest: the document, and then those assets of
  its entry that are not the destination path \<^verbatim>\<open>image/<normalized name>\<close> of a resolved
  asset of any document of the snapshot. So an asset listed in a deleted entry is removed
  if and only if no remaining document references it. In the example, the image shared by
  two notes stays when one of them stops being publishable and goes when both stop.
\<close>

theorem C2_asset_reference_counting:
  assumes "run h env obs q entries w = (Inr m1, tr, w')"
    and "getPublishableSet env obs = Inr snap"
  shows "filter is_unlink (map fst tr) =
           concat (map (\<lambda>rel. Unlink (pjoin env q rel) #
                           map (\<lambda>a. Unlink (pjoin env q a))
                             (filter (\<lambda>a. a \<notin> set (assetsStillReferenced snap))
                                (entry_assets (map_of entries rel))))
                     (toDeleteMd entries snap))"
proof -
  from assms(1) obtain snap' tr_dirs where s: "getPublishableSet env obs = Inr snap'"
    and d: "list_all is_dir_op tr_dirs"
    and t: "map fst tr =
       concat (map (delete_ops env q entries (assetsStillReferenced snap')) (toDeleteMd entries snap')) @
       tr_dirs @
       Mkdir (pjoin env q (js ''image'')) # concat (map (planned_ops env q entries) snap') @
       [WriteManifest m1]"
    by (rule run_success)
  from s assms(2) have "snap' = snap" by simp
  with t d show ?thesis
    by (simp add: filter_unlink_delete_ops filter_unlink_dirs filter_unlink_planned is_unlink_def
        delete_ops_def[abs_def])
qed

theorem C2_asset_reference_counting_witness:
  "filter is_unlink (map fst (fst (snd (run mem_fs (env_ab True False) VAULT SITE manifest_ab site_ab))))
     = [Unlink (js ''/q/b.md'')] \<and>
   snd (snd (run mem_fs (env_ab True False) VAULT SITE manifest_ab site_ab))
     = [js ''/q/index.md'', js ''/q/a.md'', js ''/q/image/s.png''] \<and>
   filter is_unlink (map fst (fst (snd (run mem_fs (env_ab False False) VAULT SITE manifest_ab site_ab))))
     = [Unlink (js ''/q/a.md''), Unlink (js ''/q/image/s.png''),
        Unlink (js ''/q/b.md''), Unlink (js ''/q/image/s.png'')] \<and>
   snd (snd (run mem_fs (env_ab False False) VAULT SITE manifest_ab site_ab)) = [js ''/q/index.md'']"
proof -
  let ?one = "run mem_fs (env_ab True False) VAULT SITE manifest_ab site_ab"
  let ?none = "run mem_fs (env_ab False False) VAULT SITE manifest_ab site_ab"
  have r1: "fst ?one = Inr [(js ''a.md'', entry_s)]" by code_simp
  have s1: "getPublishableSet (env_ab True False) VAULT =
     Inr [(js ''a.md'', \<lparr>d_mtime = 5, d_content = note_on (js ''s.png''),
            d_assets = [\<lparr>a_ref = js ''s.png'', a_basename = js ''s.png'',
                         slugifiedBasename = js ''s.png'', sourcePath = js ''/v/image/s.png''\<rparr>]\<rparr>)]"
    by code_simp
  have e1: "?one = (Inr [(js ''a.md'', entry_s)], fst (snd ?one), snd (snd ?one))"
    using r1 by (metis prod.collapse)
  have "filter is_unlink (map fst (fst (snd ?one))) = [Unlink (js ''/q/b.md'')]"
    unfolding C2_asset_reference_counting [OF e1 s1] by code_simp
  moreover have r2: "fst ?none = Inr []" by code_simp
  have s2: "getPublishableSet (env_ab False False) VAULT = Inr []" by code_simp
  have e2: "?none = (Inr [], fst (snd ?none), snd (snd ?none))"
    using r2 by (metis prod.collapse)
  have "filter is_unlink (map fst (fst (snd ?none))) =
     [Unlink (js ''/q/a.md''), Unlink (js ''/q/image/s.png''),
      Unlink (js ''/q/b.md''), Unlink (js ''/q/image/s.png'')]"
    unfolding C2_asset_reference_counting [OF e2 s2] by code_simp
  moreover have "snd (snd ?one) = [js ''/q/index.md'', js ''/q/a.md'', js ''/q/image/s.png'']"
    by code_simp
  moreover have "snd (snd ?none) = [js ''/q/index.md'']" by code_simp
  ultimately show ?thesis by blast
qed

section \<open>No-clobber\<close>

lemma toDeleteMd_keys: "rel \<in> set (toDeleteMd entries snap) \<Longrightarrow> rel \<in> fst ` set entries"
  by (auto simp: toDeleteMd_def)

lemma entry_assets_paths:
  assumes "a \<in> set (entry_assets (map_of entries rel))"
  shows "a \<in> manifest_paths entries"
proof -
  from assms obtain e where e: "map_of entries rel = Some e"
    by (cases "map_of entries rel") (auto simp: entry_assets_def)
  then have "(rel, e) \<in> set entries" by (rule map_of_SomeD)
  with assms e show ?thesis by (force simp: manifest_paths_def)
qed

lemma delete_ops_targets:
  assumes "op \<in> set (delete_ops env q entries still rel)" "rel \<in> fst ` set entries"
  shows "\<exists>p \<in> manifest_paths entries. op = Unlink (pjoin env q p)"
  using assms
  by (auto simp: delete_ops_def manifest_paths_def dest: entry_assets_paths[unfolded manifest_paths_def])

lemma calls_and_then:
  assumes "and_then m f = (res, tr, w')"
    and "\<And>r t w. m = (r, t, w) \<Longrightarrow> list_all (\<lambda>ev. P (fst ev)) t"
    and "\<And>x w r t w''. f x w = (r, t, w'') \<Longrightarrow> list_all (\<lambda>ev. P (fst ev)) t"
  shows "list_all (\<lambda>ev. P (fst ev)) tr"
proof (rule and_then_cases[OF assms(1)])
  fix e assume a: "m = (Inl e, tr, w')" "res = Inl e"
  from assms(2)[OF a(1)] show ?thesis .
next
  fix x tr1 w1 tr2
  assume go: "m = (Inr x, tr1, w1)" "f x w1 = (res, tr2, w')" "tr = tr1 @ tr2"
  with assms(2)[OF go(1)] assms(3)[OF go(2)] show ?thesis by simp
qed

lemma calls_call:
  assumes "call h op w = (r, tr, w')" "P op"
  shows "list_all (\<lambda>ev. P (fst ev)) tr"
  using call_cases[OF assms(1)] assms(2) by simp

lemma calls_return: "(Inr x, [], w) = (r, t, w') \<Longrightarrow> list_all (\<lambda>ev. P (fst ev)) t"
  by auto

lemma calls_unlink:
  assumes "unlink_unless_missing h p w = (r, tr, w')" "P (Unlink p)"
  shows "list_all (\<lambda>ev. P (fst ev)) tr"
proof -
  obtain r0 tr0 w0 where c: "call h (Unlink p) w = (r0, tr0, w0)" by (cases "call h (Unlink p) w")
  from call_cases[OF c] have tr0: "tr0 = [(Unlink p, r0)]" .
  show ?thesis using assms c tr0
    by (cases r0) (auto simp: unlink_unless_missing_def split: if_splits)
qed

lemma calls_delete_assets:
  "delete_assets h env q still as w = (r, tr, w') \<Longrightarrow>
   (\<And>a. a \<in> set as \<Longrightarrow> a \<notin> set still \<Longrightarrow> P (Unlink (pjoin env q a))) \<Longrightarrow>
   list_all (\<lambda>ev. P (fst ev)) tr"
proof (induction as arbitrary: w r tr w')
  case Nil then show ?case by auto
next
  case (Cons a as)
  show ?case
  proof (cases "a \<in> set still")
    case True
    with Cons.prems(1) have "delete_assets h env q still as w = (r, tr, w')" by simp
    then show ?thesis by (rule Cons.IH) (simp add: Cons.prems(2))
  next
    case False
    with Cons.prems(1) have eq: "and_then (unlink_unless_missing h (pjoin env q a) w)
          (\<lambda>u. delete_assets h env q still as) = (r, tr, w')" by simp
    show ?thesis
    proof (rule calls_and_then[OF eq])
      fix r0 t0 w0
      assume "unlink_unless_missing h (pjoin env q a) w = (r0, t0, w0)"
      then show "list_all (\<lambda>ev. P (fst ev)) t0"
        by (rule calls_unlink) (simp add: Cons.prems(2) False)
    next
      fix x w0 r0 t0 w0'
      assume "delete_assets h env q still as w0 = (r0, t0, w0')"
      then show "list_all (\<lambda>ev. P (fst ev)) t0" by (rule Cons.IH) (simp add: Cons.prems(2))
    qed
  qed
qed

lemma calls_delete_docs:
  "delete_docs h env q entries still rels w = (r, tr, w') \<Longrightarrow>
   (\<And>rel op. rel \<in> set rels \<Longrightarrow> op \<in> set (delete_ops env q entries still rel) \<Longrightarrow> P op) \<Longrightarrow>
   list_all (\<lambda>ev. P (fst ev)) tr"
proof (induction rels arbitrary: w r tr w')
  case Nil then show ?case by auto
next
  case (Cons rel rels)
  from Cons.prems(1) have eq: "and_then (unlink_unless_missing h (pjoin env q rel) w)
       (\<lambda>u w1. and_then (delete_assets h env q still (entry_assets (map_of entries rel)) w1)
            (\<lambda>u. delete_docs h env q entries still rels)) = (r, tr, w')" by simp
  show ?case
  proof (rule calls_and_then[OF eq])
    fix r0 t0 w0
    assume "unlink_unless_missing h (pjoin env q rel) w = (r0, t0, w0)"
    then show "list_all (\<lambda>ev. P (fst ev)) t0"
      by (rule calls_unlink) (rule Cons.prems(2)[of rel], simp_all add: delete_ops_def)
  next
    fix x w0 r0 t0 w0'
    assume eq2: "and_then (delete_assets h env q still (entry_assets (map_of entries rel)) w0)
            (\<lambda>u. delete_docs h env q entries still rels) = (r0, t0, w0')"
    show "list_all (\<lambda>ev. P (fst ev)) t0"
    proof (rule calls_and_then[OF eq2])
      fix r1 t1 w1
      assume "delete_assets h env q still (entry_assets (map_of entries rel)) w0 = (r1, t1, w1)"
      then show "list_all (\<lambda>ev. P (fst ev)) t1"
        by (rule calls_delete_assets) (rule Cons.prems(2)[of rel], simp_all add: delete_ops_def)
    next
      fix y w1 r1 t1 w1'
      assume "delete_docs h env q entries still rels w1 = (r1, t1, w1')"
      then show "list_all (\<lambda>ev. P (fst ev)) t1"
        by (rule Cons.IH) (rule Cons.prems(2), simp_all)
    qed
  qed
qed

lemma calls_copy_assets:
  "copy_assets h env cid as w = (r, tr, w') \<Longrightarrow>
   (\<And>a. a \<in> set as \<Longrightarrow> P (CopyFile (sourcePath a) (pjoin env cid (slugifiedBasename a)))) \<Longrightarrow>
   list_all (\<lambda>ev. P (fst ev)) tr"
proof (induction as arbitrary: w r tr w')
  case Nil then show ?case by auto
next
  case (Cons a as)
  from Cons.prems(1) have eq: "and_then
       (call h (CopyFile (sourcePath a) (pjoin env cid (slugifiedBasename a))) w)
       (\<lambda>names w1.
          and_then (copy_assets h env cid as w1)
            (\<lambda>paths w2. (Inr (assetDest (slugifiedBasename a) # paths), [], w2))) = (r, tr, w')"
    by simp
  show ?case
  proof (rule calls_and_then[OF eq])
    fix r0 t0 w0
    assume "call h (CopyFile (sourcePath a) (pjoin env cid (slugifiedBasename a))) w = (r0, t0, w0)"
    then show "list_all (\<lambda>ev. P (fst ev)) t0" by (rule calls_call) (simp add: Cons.prems(2))
  next
    fix x w0 r0 t0 w0'
    assume eq2: "and_then (copy_assets h env cid as w0)
            (\<lambda>paths w2. (Inr (assetDest (slugifiedBasename a) # paths), [], w2)) = (r0, t0, w0')"
    show "list_all (\<lambda>ev. P (fst ev)) t0"
    proof (rule calls_and_then[OF eq2])
      fix r1 t1 w1
      assume "copy_assets h env cid as w0 = (r1, t1, w1)"
      then show "list_all (\<lambda>ev. P (fst ev)) t1" by (rule Cons.IH) (simp add: Cons.prems(2))
    next
      show "\<And>x w r t w''. (Inr (assetDest (slugifiedBasename a) # x), [], w) = (r, t, w'')
              \<Longrightarrow> list_all (\<lambda>ev. P (fst ev)) t"
        by (rule calls_return)
    qed
  qed
qed

lemma calls_materialize:
  assumes "materialize h env q rel data w = (r, tr, w')"
    and "\<And>op. op \<in> set (write_ops env q rel data) \<Longrightarrow> P op"
  shows "list_all (\<lambda>ev. P (fst ev)) tr"
proof -
  from assms(1) have eq: "and_then (call h (Mkdir (dirname (pjoin env q rel))) w)
           (\<lambda>names w1.
              and_then (copy_assets h env (pjoin env q (js ''image'')) (d_assets data) w1)
                (\<lambda>assetPathsInContent w2.
                   and_then
                     (call h (WriteFile (pjoin env q rel)
                                (convertContentForQuartz (d_content data) (d_assets data))) w2)
                     (\<lambda>names w3.
                        (Inr \<lparr>m_mtime = d_mtime data, m_assets = Some assetPathsInContent\<rparr>,
                         [], w3)))) = (r, tr, w')"
    by (simp add: materialize_def Let_def)
  show ?thesis
  proof (rule calls_and_then[OF eq])
    fix r0 t0 w0
    assume "call h (Mkdir (dirname (pjoin env q rel))) w = (r0, t0, w0)"
    then show "list_all (\<lambda>ev. P (fst ev)) t0"
      by (rule calls_call) (simp add: assms(2) write_ops_def)
  next
    fix x w0 r0 t0 w0'
    assume eq2: "and_then (copy_assets h env (pjoin env q (js ''image'')) (d_assets data) w0)
                (\<lambda>assetPathsInContent w2.
                   and_then
                     (call h (WriteFile (pjoin env q rel)
                                (convertContentForQuartz (d_content data) (d_assets data))) w2)
                     (\<lambda>names w3.
                        (Inr \<lparr>m_mtime = d_mtime data, m_assets = Some assetPathsInContent\<rparr>,
                         [], w3))) = (r0, t0, w0')"
    show "list_all (\<lambda>ev. P (fst ev)) t0"
    proof (rule calls_and_then[OF eq2])
      fix r1 t1 w1
      assume "copy_assets h env (pjoin env q (js ''image'')) (d_assets data) w0 = (r1, t1, w1)"
      then show "list_all (\<lambda>ev. P (fst ev)) t1"
        by (rule calls_copy_assets) (simp add: assms(2) write_ops_def)
    next
      fix ps w2 r2 t2 w2'
      assume eq3: "and_then
                     (call h (WriteFile (pjoin env q rel)
                                (convertContentForQuartz (d_content data) (d_assets data))) w2)
                     (\<lambda>names w3.
                        (Inr \<lparr>m_mtime = d_mtime data, m_assets = Some ps\<rparr>, [], w3))
                   = (r2, t2, w2')"
      show "list_all (\<lambda>ev. P (fst ev)) t2"
      proof (rule calls_and_then[OF eq3])
        fix r3 t3 w3
        assume "call h (WriteFile (pjoin env q rel)
                  (convertContentForQuartz (d_content data) (d_assets data))) w2 = (r3, t3, w3)"
        then show "list_all (\<lambda>ev. P (fst ev)) t3"
          by (rule calls_call) (simp add: assms(2) write_ops_def)
      next
        show "\<And>x w r t w''. (Inr \<lparr>m_mtime = d_mtime data, m_assets = Some ps\<rparr>, [], w) = (r, t, w'')
                \<Longrightarrow> list_all (\<lambda>ev. P (fst ev)) t"
          by (rule calls_return)
      qed
    qed
  qed
qed

lemma calls_add_update:
  "add_update h env q entries snap acc w = (r, tr, w') \<Longrightarrow>
   (\<And>d op. d \<in> set snap \<Longrightarrow> op \<in> set (planned_ops env q entries d) \<Longrightarrow> P op) \<Longrightarrow>
   list_all (\<lambda>ev. P (fst ev)) tr"
proof (induction snap arbitrary: acc w r tr w')
  case Nil then show ?case by auto
next
  case (Cons d snap)
  obtain rel data where d: "d = (rel, data)" by (cases d)
  show ?case
  proof (cases "carried entries rel data")
    case (Some prev)
    with Cons.prems(1) d have "add_update h env q entries snap (map_set acc rel prev) w = (r, tr, w')"
      by simp
    then show ?thesis by (rule Cons.IH) (rule Cons.prems(2), simp_all)
  next
    case None
    with Cons.prems(1) d have eq: "and_then (materialize h env q rel data w)
            (\<lambda>entry. add_update h env q entries snap (map_set acc rel entry)) = (r, tr, w')"
      by simp
    show ?thesis
    proof (rule calls_and_then[OF eq])
      fix r0 t0 w0
      assume "materialize h env q rel data w = (r0, t0, w0)"
      then show "list_all (\<lambda>ev. P (fst ev)) t0"
        by (rule calls_materialize) (rule Cons.prems(2)[of d], simp_all add: d planned_ops_def None)
    next
      fix x w0 r0 t0 w0'
      assume "add_update h env q entries snap (map_set acc rel x) w0 = (r0, t0, w0')"
      then show "list_all (\<lambda>ev. P (fst ev)) t0"
        by (rule Cons.IH) (rule Cons.prems(2), simp_all)
    qed
  qed
qed

lemma calls_add_update_phase:
  assumes "add_update_phase h env q entries snap w = (r, tr, w')"
    and "distinct (map fst snap)"
    and "P (Mkdir (pjoin env q (js ''image'')))"
    and "\<And>d op. d \<in> set snap \<Longrightarrow> op \<in> set (planned_ops env q entries d) \<Longrightarrow> P op"
    and "P (WriteManifest (planned_manifest entries snap))"
  shows "list_all (\<lambda>ev. P (fst ev)) tr \<and> (\<forall>m. r = Inr m \<longrightarrow> m = planned_manifest entries snap)"
proof -
  from assms(1) have eq: "and_then (call h (Mkdir (pjoin env q (js ''image''))) w)
       (\<lambda>names w1.
          and_then (add_update h env q entries snap [] w1)
            (\<lambda>newEntries w2.
               and_then (call h (WriteManifest newEntries) w2)
                 (\<lambda>names w3. (Inr newEntries, [], w3)))) = (r, tr, w')"
    by (simp add: add_update_phase_def)
  show ?thesis
  proof (rule and_then_cases[OF eq])
    fix e assume a: "call h (Mkdir (pjoin env q (js ''image''))) w = (Inl e, tr, w')" "r = Inl e"
    from calls_call[OF a(1), of P] assms(3) a(2) show ?thesis by simp
  next
    fix x tr1 w1 tr2
    assume go: "call h (Mkdir (pjoin env q (js ''image''))) w = (Inr x, tr1, w1)"
      "and_then (add_update h env q entries snap [] w1)
            (\<lambda>newEntries w2.
               and_then (call h (WriteManifest newEntries) w2)
                 (\<lambda>names w3. (Inr newEntries, [], w3))) = (r, tr2, w')"
      "tr = tr1 @ tr2"
    from calls_call[OF go(1), of P] assms(3) have t1: "list_all (\<lambda>ev. P (fst ev)) tr1" by simp
    show ?thesis
    proof (rule and_then_cases[OF go(2)])
      fix e assume a: "add_update h env q entries snap [] w1 = (Inl e, tr2, w')" "r = Inl e"
      from calls_add_update[OF a(1), of P] assms(4) have "list_all (\<lambda>ev. P (fst ev)) tr2" by blast
      with t1 go(3) a(2) show ?thesis by simp
    next
      fix m tr3 w3 tr4
      assume go2: "add_update h env q entries snap [] w1 = (Inr m, tr3, w3)"
        "and_then (call h (WriteManifest m) w3) (\<lambda>names w3. (Inr m, [], w3)) = (r, tr4, w')"
        "tr2 = tr3 @ tr4"
      from calls_add_update[OF go2(1), of P] assms(4) have t3: "list_all (\<lambda>ev. P (fst ev)) tr3" by blast
      from add_update_success[OF go2(1) assms(2)] have m: "m = planned_manifest entries snap"
        by (simp add: planned_manifest_def)
      have "list_all (\<lambda>ev. P (fst ev)) tr4 \<and> (\<forall>m'. r = Inr m' \<longrightarrow> m' = m)"
      proof (rule and_then_cases[OF go2(2)])
        fix e assume a: "call h (WriteManifest m) w3 = (Inl e, tr4, w')" "r = Inl e"
        from calls_call[OF a(1), of P] assms(5) m a(2) show ?thesis by simp
      next
        fix y tr5 w5 tr6
        assume go3: "call h (WriteManifest m) w3 = (Inr y, tr5, w5)"
          "(Inr m, [], w5) = (r, tr6, w')" "tr4 = tr5 @ tr6"
        from calls_call[OF go3(1), of P] assms(5) m go3(2) go3(3) show ?thesis by auto
      qed
      with t1 t3 go(3) go2(3) m show ?thesis by simp
    qed
  qed
qed

lemma planned_ops_targets:
  assumes "op \<in> set (planned_ops env q entries d)" "d \<in> set snap"
  shows "own_target env q entries snap op"
proof (cases "carried entries (fst d) (snd d)")
  case (Some prev)
  with assms(1) show ?thesis by (simp add: planned_ops_def)
next
  case None
  then have ef: "entry_for entries (fst d) (snd d) = fresh_entry (snd d)"
    by (simp add: entry_for_def)
  with assms(2) have mem: "(fst d, fresh_entry (snd d)) \<in> set (planned_manifest entries snap)"
    by (force simp: planned_manifest_def)
  from assms(1) None have "op \<in> set (write_ops env q (fst d) (snd d))"
    by (simp add: planned_ops_def)
  then consider (mk) "op = Mkdir (dirname (pjoin env q (fst d)))"
    | (cp) a where "a \<in> set (d_assets (snd d))"
        "op = CopyFile (sourcePath a) (pjoin env (pjoin env q (js ''image'')) (slugifiedBasename a))"
    | (wr) "op = WriteFile (pjoin env q (fst d))
                  (convertContentForQuartz (d_content (snd d)) (d_assets (snd d)))"
    by (auto simp: write_ops_def)
  then show ?thesis
  proof cases
    case mk then show ?thesis by (simp add: own_target_def)
  next
    case (cp a)
    from cp(1) have "assetDest (slugifiedBasename a) \<in> set (entry_assets (Some (fresh_entry (snd d))))"
      by (simp add: entry_assets_def fresh_entry_def)
    with mem have "assetDest (slugifiedBasename a) \<in> manifest_paths (planned_manifest entries snap)"
      by (force simp: manifest_paths_def)
    with cp assms(2) show ?thesis by (auto simp: own_target_def)
  next
    case wr
    from mem have "fst d \<in> fst ` set (planned_manifest entries snap)" by force
    with wr show ?thesis by (simp add: own_target_def)
  qed
qed

lemma run_calls:
  assumes "run h env obs q entries w = (res, tr, w')"
    and "getPublishableSet env obs = Inr snap"
  shows "list_all (\<lambda>ev. own_target env q entries snap (fst ev)) tr \<and>
         (\<forall>m. res = Inr m \<longrightarrow> m = planned_manifest entries snap)"
proof -
  let ?P = "own_target env q entries snap"
  have del: "\<And>rel op. rel \<in> set (toDeleteMd entries snap) \<Longrightarrow>
      op \<in> set (delete_ops env q entries (assetsStillReferenced snap) rel) \<Longrightarrow> ?P op"
  proof -
    fix rel op
    assume "rel \<in> set (toDeleteMd entries snap)"
      "op \<in> set (delete_ops env q entries (assetsStillReferenced snap) rel)"
    from delete_ops_targets[OF this(2) toDeleteMd_keys[OF this(1)]]
    show "?P op" by (auto simp: own_target_def)
  qed
  from assms(1) show ?thesis
  proof (cases rule: run_cases)
    case (scan e)
    with assms(2) show ?thesis by simp
  next
    case (deleting snap' e)
    with assms(2) have "snap' = snap" by simp
    with deleting(2) calls_delete_docs[of h env q entries _ _ w "Inl e" tr w' ?P] del deleting(3)
    show ?thesis by simp
  next
    case (writing snap' tr_del w1 tr_dirs w2 tr_add)
    with assms(2) have s: "snap' = snap" by simp
    from writing(2) s have "list_all (\<lambda>ev. ?P (fst ev)) tr_del"
      using calls_delete_docs[of h env q entries _ _ w "Inr ()" tr_del w1 ?P] del by simp
    moreover from remove_empty_dirs_result[OF writing(3)]
    have "list_all (\<lambda>ev. ?P (fst ev)) tr_dirs"
      by (auto simp: list_all_iff is_dir_op_def own_target_def split: fs_op.splits)
    moreover from writing(4) s
    have "add_update_phase h env q entries snap w2 = (res, tr_add, w')" by simp
    then have "list_all (\<lambda>ev. ?P (fst ev)) tr_add \<and>
               (\<forall>m. res = Inr m \<longrightarrow> m = planned_manifest entries snap)"
    proof (rule calls_add_update_phase)
      show "distinct (map fst snap)" by (rule snapshot_distinct[OF assms(2)])
      show "?P (Mkdir (pjoin env q (js ''image'')))" by (simp add: own_target_def)
      show "\<And>d op. d \<in> set snap \<Longrightarrow> op \<in> set (planned_ops env q entries d) \<Longrightarrow> ?P op"
        by (rule planned_ops_targets)
      show "?P (WriteManifest (planned_manifest entries snap))" by (simp add: own_target_def)
    qed
    ultimately show ?thesis using writing(5) by simp
  qed
qed

text \<open>
  C3. The claim is that a run never reads, writes or deletes a file of the destination
  tree whose path is in neither manifest. The note of \<open>env_escape\<close> embeds
  \<^verbatim>\<open>../q/index.md\<close>; the second candidate of the resolver is that path resolved against the
  directory of the note, which is the hand-written \<^verbatim>\<open>index.md\<close> of the site. The run copies
  it to the image directory of the site, so it reads it, and neither the manifest loaded
  nor the manifest written lists \<^verbatim>\<open>index.md\<close>.
\<close>

theorem C3_unlisted_file_read:
  "run mem_fs env_escape VAULT SITE [] [js ''/q/index.md''] =
     (Inr manifest_escape,
      [(Mkdir (js ''/q/image''), Inr []), (Mkdir (js ''/q''), Inr []),
       (CopyFile (js ''/q/index.md'') (js ''/q/image/index.md''), Inr []),
       (WriteFile (js ''/q/a.md'') (note_linked (js ''index.md'')), Inr []),
       (WriteManifest manifest_escape, Inr [])],
      [js ''/q/index.md'', js ''/q/image/index.md'', js ''/q/a.md'']) \<and>
   js ''index.md'' \<notin> manifest_paths [] \<and>
   js ''index.md'' \<notin> manifest_paths manifest_escape"
proof -
  have "run mem_fs env_escape VAULT SITE [] [js ''/q/index.md''] =
     (Inr manifest_escape,
      [(Mkdir (js ''/q/image''), Inr []), (Mkdir (js ''/q''), Inr []),
       (CopyFile (js ''/q/index.md'') (js ''/q/image/index.md''), Inr []),
       (WriteFile (js ''/q/a.md'') (note_linked (js ''index.md'')), Inr []),
       (WriteManifest manifest_escape, Inr [])],
      [js ''/q/index.md'', js ''/q/image/index.md'', js ''/q/a.md''])"
    by code_simp
  moreover have "js ''index.md'' \<notin> manifest_paths []" by (simp add: manifest_paths_def)
  moreover have "js ''index.md'' \<notin> manifest_paths manifest_escape"
    by (simp add: manifest_paths_def manifest_escape_def entry_assets_def js_def)
  ultimately show ?thesis by blast
qed

text \<open>
  C3, as amended. In every run, whether it succeeds or fails and wherever it fails: a file
  is deleted only at a path of the manifest loaded (a key or an asset of an entry); a file
  is written, by \<^verbatim>\<open>writeFile\<close> or as the target of a copy, only at a path of the manifest
  that the run is to write, which is the manifest it returns when it succeeds; the other
  calls list, remove or make directories or write the manifest file. A run whose scan of
  the vault fails makes no call. What a copy reads is the source of a resolved asset of the
  snapshot, wherever the resolver found it; that may be a file of the destination tree that
  no manifest lists.
\<close>

theorem C3_no_clobber:
  assumes "run h env obs q entries w = (res, tr, w')"
  shows "(\<forall>e. getPublishableSet env obs = Inl e \<longrightarrow> tr = []) \<and>
         (\<forall>snap. getPublishableSet env obs = Inr snap \<longrightarrow>
            (\<forall>m. res = Inr m \<longrightarrow> m = planned_manifest entries snap) \<and>
            (\<forall>ev\<in>set tr.
               case fst ev of
                 Unlink p \<Rightarrow> p \<in> pjoin env q ` manifest_paths entries
               | CopyFile src dst \<Rightarrow>
                   (\<exists>d\<in>set snap. \<exists>a\<in>set (d_assets (snd d)).
                      src = sourcePath a \<and>
                      dst = pjoin env (pjoin env q (js ''image'')) (slugifiedBasename a) \<and>
                      assetDest (slugifiedBasename a) \<in> manifest_paths (planned_manifest entries snap))
               | WriteFile dst text \<Rightarrow> dst \<in> pjoin env q ` fst ` set (planned_manifest entries snap)
               | Readdir d \<Rightarrow> True
               | Rmdir d \<Rightarrow> True
               | Mkdir d \<Rightarrow> True
               | WriteManifest m \<Rightarrow> m = planned_manifest entries snap))"
proof (intro conjI allI impI)
  fix e assume "getPublishableSet env obs = Inl e"
  with assms show "tr = []" by (simp add: run_def)
next
  fix snap m assume "getPublishableSet env obs = Inr snap" "res = Inr m"
  with run_calls[OF assms] show "m = planned_manifest entries snap" by simp
next
  fix snap assume "getPublishableSet env obs = Inr snap"
  from run_calls[OF assms this]
  have "list_all (\<lambda>ev. own_target env q entries snap (fst ev)) tr" by simp
  then show "\<forall>ev\<in>set tr.
               case fst ev of
                 Unlink p \<Rightarrow> p \<in> pjoin env q ` manifest_paths entries
               | CopyFile src dst \<Rightarrow>
                   (\<exists>d\<in>set snap. \<exists>a\<in>set (d_assets (snd d)).
                      src = sourcePath a \<and>
                      dst = pjoin env (pjoin env q (js ''image'')) (slugifiedBasename a) \<and>
                      assetDest (slugifiedBasename a) \<in> manifest_paths (planned_manifest entries snap))
               | WriteFile dst text \<Rightarrow> dst \<in> pjoin env q ` fst ` set (planned_manifest entries snap)
               | Readdir d \<Rightarrow> True
               | Rmdir d \<Rightarrow> True
               | Mkdir d \<Rightarrow> True
               | WriteManifest m \<Rightarrow> m = planned_manifest entries snap"
    by (simp add: list_all_iff own_target_def)
qed

theorem C3_no_clobber_witness:
  "run no_write_fs env_escape VAULT SITE [] [js ''/q/index.md''] =
     (Inl EACCES,
      [(Mkdir (js ''/q/image''), Inr []), (Mkdir (js ''/q''), Inr []),
       (CopyFile (js ''/q/index.md'') (js ''/q/image/index.md''), Inr []),
       (WriteFile (js ''/q/a.md'') (note_linked (js ''index.md'')), Inl EACCES)],
      [js ''/q/index.md'', js ''/q/image/index.md'']) \<and>
   planned_manifest []
     [(js ''a.md'',
       \<lparr>d_mtime = 7, d_content = note_on (js ''../q/index.md''),
        d_assets = [\<lparr>a_ref = js ''../q/index.md'', a_basename = js ''index.md'',
                     slugifiedBasename = js ''index.md'', sourcePath = js ''/q/index.md''\<rparr>]\<rparr>)]
     = manifest_escape \<and>
   js ''/q/image/index.md'' \<in> pjoin env_escape SITE ` manifest_paths manifest_escape \<and>
   js ''/q/a.md'' \<in> pjoin env_escape SITE ` fst ` set manifest_escape \<and>
   fst (run mem_fs env_escape VAULT SITE [] [js ''/q/index.md'']) = Inr manifest_escape"
proof -
  let ?snap = "[(js ''a.md'',
       \<lparr>d_mtime = 7, d_content = note_on (js ''../q/index.md''),
        d_assets = [\<lparr>a_ref = js ''../q/index.md'', a_basename = js ''index.md'',
                     slugifiedBasename = js ''index.md'', sourcePath = js ''/q/index.md''\<rparr>]\<rparr>)]"
  have s: "getPublishableSet env_escape VAULT = Inr ?snap" by code_simp
  have r: "run no_write_fs env_escape VAULT SITE [] [js ''/q/index.md''] =
     (Inl EACCES,
      [(Mkdir (js ''/q/image''), Inr []), (Mkdir (js ''/q''), Inr []),
       (CopyFile (js ''/q/index.md'') (js ''/q/image/index.md''), Inr []),
       (WriteFile (js ''/q/a.md'') (note_linked (js ''index.md'')), Inl EACCES)],
      [js ''/q/index.md'', js ''/q/image/index.md''])"
    by code_simp
  have p: "planned_manifest [] ?snap = manifest_escape" by code_simp
  have j: "pjoin env_escape (pjoin env_escape SITE (js ''image'')) (js ''index.md'') =
           js ''/q/image/index.md''" by code_simp
  have a: "assetDest (js ''index.md'') = js ''image/index.md''" by code_simp
  have k: "pjoin env_escape SITE (js ''image/index.md'') = js ''/q/image/index.md''" by code_simp
  from C3_no_clobber [OF r, THEN conjunct2, rule_format, OF s, THEN conjunct2, rule_format,
      of "(CopyFile (js ''/q/index.md'') (js ''/q/image/index.md''), Inr [])"]
  have "assetDest (js ''index.md'') \<in> manifest_paths manifest_escape"
    by (simp add: p j)
  then have c: "js ''/q/image/index.md'' \<in> pjoin env_escape SITE ` manifest_paths manifest_escape"
    unfolding a using k by (metis imageI)
  from C3_no_clobber [OF r, THEN conjunct2, rule_format, OF s, THEN conjunct2, rule_format,
      of "(WriteFile (js ''/q/a.md'') (note_linked (js ''index.md'')), Inl EACCES)"]
  have wr: "js ''/q/a.md'' \<in> pjoin env_escape SITE ` fst ` set manifest_escape"
    by (simp add: p)
  have r2: "fst (run mem_fs env_escape VAULT SITE [] [js ''/q/index.md'']) = Inr manifest_escape"
    by code_simp
  from r p c wr r2 show ?thesis by blast
qed

section \<open>Idempotence\<close>

lemma assetsChanged_same: "\<not> assetsChanged xs xs"
  by (auto simp: assetsChanged_def list_ex_iff)

lemma unchanged_fresh: "unchanged (fresh_entry data) data"
  by (simp add: unchanged_def fresh_entry_def entry_assets_def assetsChanged_same)

lemma carried_unchanged: "carried entries rel data = Some prev \<Longrightarrow> unchanged prev data"
  by (auto simp: carried_def split: option.splits if_splits)

lemma unchanged_entry_for: "unchanged (entry_for entries rel data) data"
  by (cases "carried entries rel data")
     (auto simp: entry_for_def unchanged_fresh carried_unchanged)

lemma map_of_planned:
  assumes "distinct (map fst snap)" "d \<in> set snap"
  shows "map_of (map (\<lambda>d. (fst d, f d)) snap) (fst d) = Some (f d)"
  using assms
proof (induction snap)
  case Nil then show ?case by simp
next
  case (Cons x snap)
  show ?case
  proof (cases "d = x")
    case True then show ?thesis by simp
  next
    case False
    with Cons.prems have "d \<in> set snap" "fst x \<notin> fst ` set snap" by auto
    then have "fst d \<noteq> fst x" by (metis imageI)
    with Cons \<open>d \<in> set snap\<close> show ?thesis by simp
  qed
qed

lemma carried_second_run:
  assumes "distinct (map fst snap)" "d \<in> set snap"
    and "m1 = map (\<lambda>d. (fst d, entry_for m0 (fst d) (snd d))) snap"
  shows "carried m1 (fst d) (snd d) = Some (entry_for m0 (fst d) (snd d))"
proof -
  from map_of_planned[OF assms(1,2), of "\<lambda>d. entry_for m0 (fst d) (snd d)"] assms(3)
  have "map_of m1 (fst d) = Some (entry_for m0 (fst d) (snd d))" by simp
  then show ?thesis by (simp add: carried_def unchanged_entry_for)
qed

lemma add_update_all_carried:
  "(\<And>d. d \<in> set snap \<Longrightarrow> carried entries (fst d) (snd d) = Some (f d)) \<Longrightarrow>
   distinct (map fst snap) \<Longrightarrow> fst ` set snap \<inter> fst ` set acc = {} \<Longrightarrow>
   add_update h env q entries snap acc w = (Inr (acc @ map (\<lambda>d. (fst d, f d)) snap), [], w)"
proof (induction snap arbitrary: acc)
  case Nil then show ?case by simp
next
  case (Cons d snap)
  obtain rel data where d: "d = (rel, data)" by (cases d)
  from Cons.prems(1)[of d] d have c: "carried entries rel data = Some (f d)" by simp
  from Cons.prems d have fresh: "rel \<notin> fst ` set acc" by auto
  from Cons.prems d have dist: "distinct (map fst snap)" and nin: "rel \<notin> fst ` set snap" by auto
  have disj: "fst ` set snap \<inter> fst ` set (acc @ [(rel, f d)]) = {}"
    using Cons.prems(3) nin d by auto
  have "add_update h env q entries snap (acc @ [(rel, f d)]) w =
          (Inr ((acc @ [(rel, f d)]) @ map (\<lambda>d. (fst d, f d)) snap), [], w)"
    by (rule Cons.IH[OF _ dist disj]) (simp add: Cons.prems(1))
  with c d fresh show ?case by (simp add: map_set_fresh)
qed

lemma toDeleteMd_second_run:
  assumes "distinct (map fst snap)"
    and "m1 = map (\<lambda>d. (fst d, f d)) snap"
  shows "toDeleteMd m1 snap = []"
proof -
  have "\<And>rel. rel \<in> fst ` set snap \<Longrightarrow> map_of snap rel \<noteq> None"
    by (simp add: map_of_eq_None_iff)
  with assms(2) show ?thesis
    by (auto simp: toDeleteMd_def filter_empty_conv comp_def)
qed

lemma second_run:
  assumes "run h env obs q m0 w0 = (Inr m1, tr1, w1)"
    and "getPublishableSet env2 obs = getPublishableSet env obs"
  shows "run h env2 obs q m1 w =
           and_then (call h (Mkdir (pjoin env2 q (js ''image''))) w)
             (\<lambda>names w. and_then (call h (WriteManifest m1) w) (\<lambda>names w. (Inr m1, [], w)))"
proof -
  from assms(1) obtain snap and tr_dirs :: "fs_op list"
    where s: "getPublishableSet env obs = Inr snap"
    and m1: "m1 = map (\<lambda>d. (fst d, entry_for m0 (fst d) (snd d))) snap"
    by (rule run_success)
  from s assms(2) have s2: "getPublishableSet env2 obs = Inr snap" by simp
  from snapshot_distinct[OF s] have dist: "distinct (map fst snap)" .
  have del: "toDeleteMd m1 snap = []" by (rule toDeleteMd_second_run[OF dist m1])
  have au: "\<And>w. add_update h env2 q m1 snap [] w = (Inr m1, [], w)"
  proof -
    fix w
    have "add_update h env2 q m1 snap [] w =
            (Inr ([] @ map (\<lambda>d. (fst d, entry_for m0 (fst d) (snd d))) snap), [], w)"
      by (rule add_update_all_carried[OF _ dist]) (simp_all add: carried_second_run[OF dist _ m1])
    with m1 show "add_update h env2 q m1 snap [] w = (Inr m1, [], w)" by simp
  qed
  show ?thesis
    by (simp add: run_def s2 Let_def del dirsToCheck_def and_then_Inr add_update_phase_def au)
qed

text \<open>
  C1. The claim is that a second run right after a successful one, with no source file
  changed, writes, copies and deletes nothing in the destination and leaves the manifest
  as it is. In \<open>env_seeing\<close> the note \<^verbatim>\<open>a.md\<close> embeds \<^verbatim>\<open>../q/b.md\<close>. At the first run the site
  is empty, the reference is dangling, and both notes are written. At the second run the
  vault is the same, but the reference now resolves to the \<^verbatim>\<open>b.md\<close> that the first run
  wrote: the second run copies it, writes \<^verbatim>\<open>a.md\<close> again, and its manifest differs from the
  first.
\<close>

theorem C1_second_run_rewrites:
  "run mem_fs (env_seeing []) VAULT SITE [] [] =
     (Inr manifest_first,
      [(Mkdir (js ''/q/image''), Inr []), (Mkdir (js ''/q''), Inr []),
       (WriteFile (js ''/q/a.md'') (note_linked (js ''b.md'')), Inr []),
       (Mkdir (js ''/q''), Inr []),
       (WriteFile (js ''/q/b.md'') note_plain, Inr []),
       (WriteManifest manifest_first, Inr [])],
      [js ''/q/a.md'', js ''/q/b.md'']) \<and>
   md_files (env_seeing [js ''/q/a.md'', js ''/q/b.md'']) = md_files (env_seeing []) \<and>
   run mem_fs (env_seeing [js ''/q/a.md'', js ''/q/b.md'']) VAULT SITE manifest_first
       [js ''/q/a.md'', js ''/q/b.md''] =
     (Inr manifest_second,
      [(Mkdir (js ''/q/image''), Inr []), (Mkdir (js ''/q''), Inr []),
       (CopyFile (js ''/q/b.md'') (js ''/q/image/b.md''), Inr []),
       (WriteFile (js ''/q/a.md'') (note_linked (js ''b.md'')), Inr []),
       (WriteManifest manifest_second, Inr [])],
      [js ''/q/a.md'', js ''/q/b.md'', js ''/q/image/b.md'']) \<and>
   manifest_second \<noteq> manifest_first"
  by code_simp

text \<open>
  C1, as amended. After a run that succeeded with the manifest \<open>m1\<close>, a second run from
  \<open>m1\<close> and the state the first run left, whose scan gives the same snapshot as the scan of
  the first run (no source file has changed, and every reference resolves to the same
  file as before), calls nothing but \<^verbatim>\<open>mkdir\<close> of the image directory and the writing of
  the manifest \<open>m1\<close>: no file of the destination is written, copied or deleted. It returns
  \<open>m1\<close> again, unless one of these two calls fails.
\<close>

theorem C1_idempotence:
  assumes "run h env obs q m0 w0 = (Inr m1, tr1, w1)"
    and "getPublishableSet env2 obs = getPublishableSet env obs"
  shows "\<exists>res2 tr2 w2.
           run h env2 obs q m1 w1 = (res2, tr2, w2) \<and>
           (\<forall>ev\<in>set tr2. fst ev = Mkdir (pjoin env2 q (js ''image'')) \<or> fst ev = WriteManifest m1) \<and>
           (res2 = Inr m1 \<or> (\<exists>e. res2 = Inl e \<and> tr2 \<noteq> [] \<and> snd (last tr2) = Inl e))"
proof -
  obtain r1 t1 x1 where c1: "call h (Mkdir (pjoin env2 q (js ''image''))) w1 = (r1, t1, x1)"
    by (cases "call h (Mkdir (pjoin env2 q (js ''image''))) w1")
  obtain r2 t2 x2 where c2: "call h (WriteManifest m1) x1 = (r2, t2, x2)"
    by (cases "call h (WriteManifest m1) x1")
  note e1 = call_cases[OF c1] and e2 = call_cases[OF c2]
  show ?thesis
    unfolding second_run[OF assms]
    using c1 c2 e1 e2
    by (cases r1; cases r2) (auto simp: and_then_def)
qed

theorem C1_idempotence_witness:
  "fst (run mem_fs (env_ab_seeing [js ''/q/index.md'']) VAULT SITE [] [js ''/q/index.md''])
     = Inr manifest_ab \<and>
   snd (snd (run mem_fs (env_ab_seeing [js ''/q/index.md'']) VAULT SITE [] [js ''/q/index.md'']))
     = site_new \<and>
   getPublishableSet (env_ab_seeing site_new) VAULT =
     getPublishableSet (env_ab_seeing [js ''/q/index.md'']) VAULT \<and>
   (\<exists>res2 tr2 w2.
      run mem_fs (env_ab_seeing site_new) VAULT SITE manifest_ab site_new = (res2, tr2, w2) \<and>
      list_all (\<lambda>ev. fst ev = Mkdir (pjoin (env_ab_seeing site_new) SITE (js ''image'')) \<or>
                     fst ev = WriteManifest manifest_ab) tr2 \<and>
      (res2 = Inr manifest_ab \<or> (\<exists>e. res2 = Inl e \<and> tr2 \<noteq> [] \<and> snd (last tr2) = Inl e))) \<and>
   run mem_fs (env_ab_seeing site_new) VAULT SITE manifest_ab site_new =
     (Inr manifest_ab,
      [(Mkdir (js ''/q/image''), Inr []), (WriteManifest manifest_ab, Inr [])], site_new)"
proof -
  let ?first = "run mem_fs (env_ab_seeing [js ''/q/index.md'']) VAULT SITE [] [js ''/q/index.md'']"
  have r1: "fst ?first = Inr manifest_ab" by code_simp
  have w1: "snd (snd ?first) = site_new" by code_simp
  have e1: "?first = (Inr manifest_ab, fst (snd ?first), site_new)"
    using r1 w1 by (metis prod.collapse)
  have s: "getPublishableSet (env_ab_seeing site_new) VAULT =
     getPublishableSet (env_ab_seeing [js ''/q/index.md'']) VAULT" by code_simp
  have r2: "run mem_fs (env_ab_seeing site_new) VAULT SITE manifest_ab site_new =
     (Inr manifest_ab,
      [(Mkdir (js ''/q/image''), Inr []), (WriteManifest manifest_ab, Inr [])], site_new)"
    by code_simp
  from C1_idempotence [OF e1 s]
  have "\<exists>res2 tr2 w2.
      run mem_fs (env_ab_seeing site_new) VAULT SITE manifest_ab site_new = (res2, tr2, w2) \<and>
      list_all (\<lambda>ev. fst ev = Mkdir (pjoin (env_ab_seeing site_new) SITE (js ''image'')) \<or>
                     fst ev = WriteManifest manifest_ab) tr2 \<and>
      (res2 = Inr manifest_ab \<or> (\<exists>e. res2 = Inl e \<and> tr2 \<noteq> [] \<and> snd (last tr2) = Inl e))"
    by (simp add: list_all_iff)
  with r1 w1 s r2 show ?thesis by blast
qed

section \<open>Matches of the image expressions advance\<close>

lemma first_some_mem: "first_some f xs = Some y \<Longrightarrow> \<exists>x\<in>set xs. f x = Some y"
  by (induction xs) (auto split: option.splits)

lemma startsWith_length: "startsWith s l \<Longrightarrow> length l \<le> length s"
proof -
  assume "startsWith s l"
  then have "length (take (length l) s) = length l" by (simp add: startsWith_def)
  then show ?thesis by simp
qed

lemma rx_match_width:
  "rx_match re pos s opn caps = Some (c, rest) \<Longrightarrow> length rest + min_width re \<le> length s"
proof (induction re pos s opn caps arbitrary: c rest rule: rx_match.induct)
  case (1 pos s opn caps)
  then show ?case by simp
next
  case (2 l k pos s opn caps)
  then show ?case
    by (auto split: if_splits dest!: startsWith_length)
next
  case (3 ls k pos s opn caps)
  from "3.prems" obtain l where l: "l \<in> set ls" "startsWith s l"
    "rx_match k (pos + length l) (drop (length l) s) opn caps = Some (c, rest)"
    by (auto dest!: first_some_mem split: if_splits)
  from "3.IH"[OF l(2,3)] show ?case by simp
next
  case (4 l k pos s opn caps)
  then show ?case
    by (fastforce split: if_splits option.splits)
next
  case (5 greedy mn cls k pos s opn caps)
  define n where "n = length (takeWhile cls s)"
  define counts where "counts = (if greedy then rev [mn ..< Suc n] else [mn ..< Suc n])"
  have "first_some (\<lambda>j. rx_match k (pos + j) (drop j s) opn caps) counts = Some (c, rest)"
    using "5.prems" unfolding counts_def n_def by (simp only: rx_match.simps Let_def)
  then obtain j where j: "j \<in> set counts"
    "rx_match k (pos + j) (drop j s) opn caps = Some (c, rest)"
    by (blast dest: first_some_mem)
  from j(1) have mj: "mn \<le> j" "j \<le> n"
    by (auto simp del: upt_Suc simp: counts_def split: if_splits)
  have "n \<le> length s" unfolding n_def by (rule length_takeWhile_le)
  with mj have js: "j \<le> length s" by simp
  from "5.IH"[OF n_def counts_def j(2)] have "length rest + min_width k \<le> length s - j" by simp
  with js mj show ?case by simp
next
  case (6 k pos s opn caps)
  then show ?case by (auto split: if_splits)
next
  case (7 k pos s opn caps)
  then show ?case by auto
next
  case (8 k pos s opn caps)
  then show ?case by (auto split: list.splits)
next
  case (9 la k pos s opn caps)
  then show ?case by (auto split: option.splits)
qed

lemma rx_exec_advances:
  assumes "rx_exec re s i = Some (caps, b, e)" and "0 < min_width re"
  shows "i < e \<and> e \<le> length s"
proof -
  from assms(1) obtain b' where b: "b' \<in> set [i ..< Suc (length s)]"
    and c: "(case rx_match re b' (drop b' s) [] [] of
              None \<Rightarrow> None
            | Some (caps, rest) \<Rightarrow> Some (caps, b', length s - length rest)) = Some (caps, b, e)"
    unfolding rx_exec_def by (blast dest: first_some_mem)
  from c obtain rest where m: "rx_match re b' (drop b' s) [] [] = Some (caps, rest)"
    and e: "e = length s - length rest"
    by (auto split: option.splits)
  from b have b': "i \<le> b'" "b' \<le> length s" by (auto simp del: upt_Suc)
  from rx_match_width[OF m] have "length rest + min_width re \<le> length s - b'" by simp
  with assms(2) b' e show ?thesis by simp
qed

lemma rx_exec_wiki_advances:
  "rx_exec WIKI_IMAGE_REGEX s i = Some (caps, b, e) \<Longrightarrow> i < e \<and> e \<le> length s"
  by (erule rx_exec_advances) (simp add: WIKI_IMAGE_REGEX_def js_def)

lemma rx_exec_md_advances:
  "rx_exec MD_IMAGE_REGEX s i = Some (caps, b, e) \<Longrightarrow> i < e \<and> e \<le> length s"
  by (erule rx_exec_advances) (simp add: MD_IMAGE_REGEX_def js_def)

section \<open>Properties of the publishability filter\<close>

lemma first_some_None_iff: "first_some f xs = None \<longleftrightarrow> (\<forall>x\<in>set xs. f x = None)"
  by (induction xs) (auto split: option.splits)

lemma first_some_append:
  "first_some f (xs @ ys) = (case first_some f xs of Some y \<Rightarrow> Some y | None \<Rightarrow> first_some f ys)"
  by (induction xs) (auto split: option.splits)

lemma startsWith_iff: "startsWith s p \<longleftrightarrow> (\<exists>r. s = p @ r)"
proof
  assume "startsWith s p"
  then have "s = p @ drop (length p) s" by (metis startsWith_def append_take_drop_id)
  then show "\<exists>r. s = p @ r" ..
next
  assume "\<exists>r. s = p @ r"
  then show "startsWith s p" by (auto simp: startsWith_def)
qed

lemma space_prefix_iff:
  "(\<exists>j \<le> length (takeWhile P v). Q j (drop j v)) \<longleftrightarrow>
   (\<exists>sp r. v = sp @ r \<and> list_all P sp \<and> Q (length sp) r)"
proof
  assume "\<exists>j \<le> length (takeWhile P v). Q j (drop j v)"
  then obtain j where j: "j \<le> length (takeWhile P v)" "Q j (drop j v)" by blast
  have "take j v = take j (takeWhile P v)"
    by (metis j(1) takeWhile_dropWhile_id take_append diff_is_0_eq take_0 append_Nil2)
  then have "list_all P (take j v)"
    by (metis list_all_iff in_set_takeD set_takeWhileD)
  moreover have "length (take j v) = j"
    using j(1) length_takeWhile_le[of P v] by simp
  ultimately show "\<exists>sp r. v = sp @ r \<and> list_all P sp \<and> Q (length sp) r"
    using j(2) by (metis append_take_drop_id)
next
  assume "\<exists>sp r. v = sp @ r \<and> list_all P sp \<and> Q (length sp) r"
  then obtain sp r where v: "v = sp @ r" "list_all P sp" "Q (length sp) r" by blast
  then have "takeWhile P v = sp @ takeWhile P r"
    by (simp add: list_all_iff)
  then have "length sp \<le> length (takeWhile P v)" by simp
  with v show "\<exists>j \<le> length (takeWhile P v). Q j (drop j v)" by auto
qed

lemma many_matches_iff:
  "rx_match (Many g 0 P # k) pos s opn caps \<noteq> None \<longleftrightarrow>
   (\<exists>sp r. s = sp @ r \<and> list_all P sp \<and> rx_match k (pos + length sp) r opn caps \<noteq> None)"
proof -
  have "rx_match (Many g 0 P # k) pos s opn caps \<noteq> None \<longleftrightarrow>
        (\<exists>j \<in> {0 ..< Suc (length (takeWhile P s))}.
           rx_match k (pos + j) (drop j s) opn caps \<noteq> None)"
    by (cases g) (simp_all add: Let_def first_some_None_iff del: upt_Suc)
  also have "\<dots> \<longleftrightarrow>
        (\<exists>j \<le> length (takeWhile P s). rx_match k (pos + j) (drop j s) opn caps \<noteq> None)"
    by (metis atLeastLessThan_iff less_Suc_eq_le zero_le)
  finally have "rx_match (Many g 0 P # k) pos s opn caps \<noteq> None \<longleftrightarrow>
        (\<exists>j \<le> length (takeWhile P s). rx_match k (pos + j) (drop j s) opn caps \<noteq> None)" .
  then show ?thesis
    using space_prefix_iff[of P s "\<lambda>j r. rx_match k (pos + j) r opn caps \<noteq> None"] by simp
qed

lemma lit_matches_iff:
  "rx_match (Lit l # k) pos s opn caps \<noteq> None \<longleftrightarrow>
   (\<exists>r. s = l @ r \<and> rx_match k (pos + length l) r opn caps \<noteq> None)"
  by (auto simp: startsWith_iff)

lemma publishable_matches_iff:
  "rx_match PUBLISHABLE_REGEX pos u [] [] \<noteq> None \<longleftrightarrow>
   (\<exists>key s1 s2 post. u = key @ s1 @ js '':'' @ s2 @ js ''true'' @ post \<and>
      (key = KEY_PUBLISHABLE \<or> key = KEY_PUBLISHED) \<and> list_all is_space s1 \<and> list_all is_space s2)"
proof -
  have tail: "\<And>p v. rx_match [Many True 0 is_space, Lit (js '':''), Many True 0 is_space, Lit (js ''true'')]
                 p v [] [] \<noteq> None \<longleftrightarrow>
        (\<exists>s1 s2 post. v = s1 @ js '':'' @ s2 @ js ''true'' @ post \<and> list_all is_space s1 \<and>
           list_all is_space s2)"
    unfolding many_matches_iff lit_matches_iff by simp blast
  have unf: "rx_match PUBLISHABLE_REGEX pos u [] [] \<noteq> None \<longleftrightarrow>
        (\<exists>key. (key = KEY_PUBLISHABLE \<or> key = KEY_PUBLISHED) \<and> startsWith u key \<and>
           rx_match [Many True 0 is_space, Lit (js '':''), Many True 0 is_space, Lit (js ''true'')]
             (pos + length key) (drop (length key) u) [] [] \<noteq> None)"
    unfolding PUBLISHABLE_REGEX_def rx_match.simps first_some_None_iff by auto
  show ?thesis
  proof
    assume "rx_match PUBLISHABLE_REGEX pos u [] [] \<noteq> None"
    with unf obtain key where k: "key = KEY_PUBLISHABLE \<or> key = KEY_PUBLISHED" "startsWith u key"
      and t: "rx_match [Many True 0 is_space, Lit (js '':''), Many True 0 is_space, Lit (js ''true'')]
             (pos + length key) (drop (length key) u) [] [] \<noteq> None" by blast
    from t obtain s1 s2 post where d: "drop (length key) u = s1 @ js '':'' @ s2 @ js ''true'' @ post"
      and sp: "list_all is_space s1" "list_all is_space s2" unfolding tail by blast
    from k(2) have "u = key @ drop (length key) u"
      by (metis startsWith_def append_take_drop_id)
    with d have "u = key @ s1 @ js '':'' @ s2 @ js ''true'' @ post" by simp
    with k(1) sp show "\<exists>key s1 s2 post. u = key @ s1 @ js '':'' @ s2 @ js ''true'' @ post \<and>
      (key = KEY_PUBLISHABLE \<or> key = KEY_PUBLISHED) \<and> list_all is_space s1 \<and> list_all is_space s2"
      by blast
  next
    assume "\<exists>key s1 s2 post. u = key @ s1 @ js '':'' @ s2 @ js ''true'' @ post \<and>
      (key = KEY_PUBLISHABLE \<or> key = KEY_PUBLISHED) \<and> list_all is_space s1 \<and> list_all is_space s2"
    then obtain key s1 s2 post where u: "u = key @ s1 @ js '':'' @ s2 @ js ''true'' @ post"
      and k: "key = KEY_PUBLISHABLE \<or> key = KEY_PUBLISHED"
      and sp: "list_all is_space s1" "list_all is_space s2" by blast
    from u have sw: "startsWith u key" by (simp add: startsWith_def)
    from u have d: "drop (length key) u = s1 @ js '':'' @ s2 @ js ''true'' @ post" by simp
    have "rx_match [Many True 0 is_space, Lit (js '':''), Many True 0 is_space, Lit (js ''true'')]
             (pos + length key) (drop (length key) u) [] [] \<noteq> None"
      unfolding tail d using sp by blast
    with k sw unf show "rx_match PUBLISHABLE_REGEX pos u [] [] \<noteq> None" by blast
  qed
qed

lemma rx_exec_None_iff:
  "rx_exec re s i = None \<longleftrightarrow>
   (\<forall>b\<in>{i ..< Suc (length s)}. rx_match re b (drop b s) [] [] = None)"
proof -
  have *: "\<And>b. (case rx_match re b (drop b s) [] [] of
                  None \<Rightarrow> None
                | Some (caps, rest) \<Rightarrow> Some (caps, b, length s - length rest)) = None \<longleftrightarrow>
               rx_match re b (drop b s) [] [] = None"
    by (simp split: option.splits prod.splits)
  show ?thesis unfolding rx_exec_def first_some_None_iff * by (simp del: upt_Suc)
qed

lemma rx_exec_matches_iff:
  "rx_exec re s 0 \<noteq> None \<longleftrightarrow> (\<exists>pre u. s = pre @ u \<and> rx_match re (length pre) u [] [] \<noteq> None)"
proof
  assume "rx_exec re s 0 \<noteq> None"
  then obtain b where b: "b < Suc (length s)" "rx_match re b (drop b s) [] [] \<noteq> None"
    unfolding rx_exec_None_iff by auto
  then have "s = take b s @ drop b s" "length (take b s) = b" by simp_all
  with b(2) show "\<exists>pre u. s = pre @ u \<and> rx_match re (length pre) u [] [] \<noteq> None" by metis
next
  assume "\<exists>pre u. s = pre @ u \<and> rx_match re (length pre) u [] [] \<noteq> None"
  then obtain pre u where "s = pre @ u" "rx_match re (length pre) u [] [] \<noteq> None" by blast
  then have "length pre \<in> {0 ..< Suc (length s)}"
    "rx_match re (length pre) (drop (length pre) s) [] [] \<noteq> None"
    by simp_all
  then show "rx_exec re s 0 \<noteq> None"
    unfolding rx_exec_None_iff by metis
qed

lemma publishable_test_iff: "rx_exec PUBLISHABLE_REGEX block 0 \<noteq> None \<longleftrightarrow> sets_true block"
  unfolding rx_exec_matches_iff publishable_matches_iff sets_true_def by blast


lemma first_some_upt:
  "first_some f [0 ..< n] = Some y \<longleftrightarrow> (\<exists>k<n. f k = Some y \<and> (\<forall>k'<k. f k' = None))"
proof (induction n arbitrary: y)
  case 0 then show ?case by simp
next
  case (Suc n)
  show ?case
  proof (cases "first_some f [0 ..< n]")
    case None
    then have all: "\<forall>k<n. f k = None" by (simp add: first_some_None_iff)
    have "first_some f [0 ..< Suc n] = f n"
      using None by (simp add: first_some_append split: option.splits)
    moreover have "(\<exists>k<Suc n. f k = Some y \<and> (\<forall>k'<k. f k' = None)) \<longleftrightarrow> f n = Some y"
      using all by (metis less_Suc_eq option.distinct(1))
    ultimately show ?thesis by simp
  next
    case (Some z)
    then have fs: "first_some f [0 ..< Suc n] = Some z" by (simp add: first_some_append)
    from Some have ex: "\<exists>k<n. f k = Some z \<and> (\<forall>k'<k. f k' = None)"
      by (simp only: Suc.IH)
    show ?thesis
    proof
      assume "first_some f [0 ..< Suc n] = Some y"
      with fs have "y = z" by simp
      with ex show "\<exists>k<Suc n. f k = Some y \<and> (\<forall>k'<k. f k' = None)"
        using less_SucI by blast
    next
      assume "\<exists>k<Suc n. f k = Some y \<and> (\<forall>k'<k. f k' = None)"
      then obtain k where k: "k < Suc n" "f k = Some y" "\<forall>k'<k. f k' = None" by blast
      from ex obtain k2 where k2: "k2 < n" "f k2 = Some z" "\<forall>k'<k2. f k' = None" by blast
      have "k = k2"
        by (metis k(2,3) k2(2,3) linorder_neqE_nat option.distinct(1))
      with k k2 fs show "first_some f [0 ..< Suc n] = Some y" by simp
    qed
  qed
qed

lemma first_some_rev_upt:
  "first_some f (rev [0 ..< n]) = Some y \<longleftrightarrow>
   (\<exists>k<n. f k = Some y \<and> (\<forall>k'. k < k' \<and> k' < n \<longrightarrow> f k' = None))"
proof (induction n)
  case 0 then show ?case by simp
next
  case (Suc n)
  show ?case
  proof (cases "f n")
    case None
    then have "first_some f (rev [0 ..< Suc n]) = first_some f (rev [0 ..< n])" by simp
    moreover have "(\<exists>k<Suc n. f k = Some y \<and> (\<forall>k'. k < k' \<and> k' < Suc n \<longrightarrow> f k' = None)) \<longleftrightarrow>
                   (\<exists>k<n. f k = Some y \<and> (\<forall>k'. k < k' \<and> k' < n \<longrightarrow> f k' = None))"
      using None by (metis less_Suc_eq option.distinct(1))
    ultimately show ?thesis using Suc.IH by simp
  next
    case (Some z)
    then have "first_some f (rev [0 ..< Suc n]) = Some z" by simp
    moreover have "(\<exists>k<Suc n. f k = Some y \<and> (\<forall>k'. k < k' \<and> k' < Suc n \<longrightarrow> f k' = None)) \<longleftrightarrow> y = z"
    proof
      assume "\<exists>k<Suc n. f k = Some y \<and> (\<forall>k'. k < k' \<and> k' < Suc n \<longrightarrow> f k' = None)"
      then obtain k where k: "k < Suc n" "f k = Some y" "\<forall>k'. k < k' \<and> k' < Suc n \<longrightarrow> f k' = None"
        by blast
      have "k = n"
      proof (rule ccontr)
        assume "k \<noteq> n"
        with k(1) have "k < n" by simp
        with k(3) have "f n = None" by simp
        with Some show False by simp
      qed
      with k(2) Some show "y = z" by simp
    next
      assume "y = z"
      with Some show "\<exists>k<Suc n. f k = Some y \<and> (\<forall>k'. k < k' \<and> k' < Suc n \<longrightarrow> f k' = None)"
        by (intro exI[of _ n]) auto
    qed
    ultimately show ?thesis by auto
  qed
qed

lemma close_index:
  "rx_match [GroupOpen, Many False 0 (\<lambda>c. True), GroupClose, Lit M] pos t [] [] = Some y \<longleftrightarrow>
   (\<exists>k \<le> length t. startsWith (drop k t) M \<and> (\<forall>k'<k. \<not> startsWith (drop k' t) M) \<and>
      y = ([take k t], drop (length M) (drop k t)))"
proof -
  let ?f = "\<lambda>k. rx_match [GroupClose, Lit M] (pos + k) (drop k t) [t] []"
  have f: "\<And>k. k \<le> length t \<Longrightarrow>
             ?f k = (if startsWith (drop k t) M then Some ([take k t], drop (length M) (drop k t))
                     else None)"
    by simp
  have tw: "takeWhile (\<lambda>c. True) t = t" by (induction t) simp_all
  have "rx_match [GroupOpen, Many False 0 (\<lambda>c. True), GroupClose, Lit M] pos t [] [] =
          first_some ?f [0 ..< Suc (length t)]"
    by (simp add: tw del: upt_Suc)
  then have "rx_match [GroupOpen, Many False 0 (\<lambda>c. True), GroupClose, Lit M] pos t [] [] = Some y
      \<longleftrightarrow> (\<exists>k<Suc (length t). ?f k = Some y \<and> (\<forall>k'<k. ?f k' = None))"
    by (simp only: first_some_upt)
  also have "\<dots> \<longleftrightarrow> (\<exists>k \<le> length t. startsWith (drop k t) M \<and> (\<forall>k'<k. \<not> startsWith (drop k' t) M) \<and>
      y = ([take k t], drop (length M) (drop k t)))"
  proof
    assume "\<exists>k<Suc (length t). ?f k = Some y \<and> (\<forall>k'<k. ?f k' = None)"
    then obtain k where k: "k \<le> length t" "?f k = Some y" "\<forall>k'<k. ?f k' = None"
      using less_Suc_eq_le by blast
    from k(1,2) f[OF k(1)] have a: "startsWith (drop k t) M"
      "y = ([take k t], drop (length M) (drop k t))"
      by (auto split: if_splits)
    have "\<forall>k'<k. \<not> startsWith (drop k' t) M"
    proof (intro allI impI)
      fix k' assume "k' < k"
      with k(1,3) have "k' \<le> length t" "?f k' = None" by auto
      with f[of k'] show "\<not> startsWith (drop k' t) M" by (auto split: if_splits)
    qed
    with a k(1) show "\<exists>k \<le> length t. startsWith (drop k t) M \<and>
      (\<forall>k'<k. \<not> startsWith (drop k' t) M) \<and> y = ([take k t], drop (length M) (drop k t))"
      by blast
  next
    assume "\<exists>k \<le> length t. startsWith (drop k t) M \<and> (\<forall>k'<k. \<not> startsWith (drop k' t) M) \<and>
      y = ([take k t], drop (length M) (drop k t))"
    then obtain k where k: "k \<le> length t" "startsWith (drop k t) M"
      "\<forall>k'<k. \<not> startsWith (drop k' t) M" "y = ([take k t], drop (length M) (drop k t))"
      by blast
    from k(1,2,4) f[OF k(1)] have "?f k = Some y" by simp
    moreover have "\<forall>k'<k. ?f k' = None"
    proof (intro allI impI)
      fix k' assume k': "k' < k"
      with k(1) have "k' \<le> length t" by simp
      from f[OF this] k(3) k' show "?f k' = None" by simp
    qed
    ultimately show "\<exists>k<Suc (length t). ?f k = Some y \<and> (\<forall>k'<k. ?f k' = None)"
      using k(1) less_Suc_eq_le by blast
  qed
  finally show ?thesis .
qed


lemma occurs_before_aux:
  assumes "t = b @ M @ r" "k' < length b" "drop k' t = M @ r'" "M \<noteq> []"
  shows "occurs_in M (b @ butlast M)"
proof -
  have t1: "t = take k' t @ M @ r'" by (metis append_take_drop_id assms(3))
  have t2: "take k' t = take k' b" using assms(1,2) by simp
  have len: "length (take k' b) = k'" using assms(2) by simp
  have n: "length b + length M - 1 = length b + (length M - 1)"
    using assms(4) by (cases M) simp_all
  have "b @ butlast M = take (length b + length M - 1) t"
    unfolding n assms(1) by (simp add: butlast_conv_take)
  also have "\<dots> = take (length b + length M - 1) (take k' b @ M @ r')"
    using t1 t2 by simp
  also have "\<dots> = take k' b @ M @ take (length b - 1 - k') r'"
    using assms(2) len by simp
  finally show ?thesis unfolding occurs_in_def by blast
qed

lemma occurs_before:
  assumes "k' < length b" "startsWith (drop k' (b @ M @ r)) M" "M \<noteq> []"
  shows "occurs_in M (b @ butlast M)"
proof -
  from assms(2) obtain r' where "drop k' (b @ M @ r) = M @ r'"
    unfolding startsWith_iff by blast
  from occurs_before_aux[OF refl assms(1) this assms(3)] show ?thesis .
qed

lemma occurs_after:
  assumes "occurs_in M (b @ butlast M)" "M \<noteq> []"
  shows "\<exists>k' < length b. startsWith (drop k' (b @ M @ r)) M"
proof -
  from assms(1) obtain p q where pq: "b @ butlast M = p @ M @ q" unfolding occurs_in_def by blast
  then have "length b + (length M - 1) = length p + length M + length q"
    by (metis length_append length_butlast add.assoc)
  with assms(2) have lp: "length p < length b" by (cases M) auto
  have "b @ M @ r = (b @ butlast M) @ last M # r"
    using assms(2) by simp
  also have "\<dots> = p @ (M @ q @ last M # r)" unfolding pq by simp
  finally have eq: "b @ M @ r = p @ (M @ q @ last M # r)" .
  have "drop (length p) (b @ M @ r) = M @ q @ last M # r"
    unfolding eq by simp
  then have "startsWith (drop (length p) (b @ M @ r)) M" unfolding startsWith_iff by blast
  with lp show ?thesis by blast
qed

lemma fm_exec:
  "rx_exec FRONTMATTER_REGEX s 0 =
     (case rx_match FRONTMATTER_REGEX 0 s [] [] of
        None \<Rightarrow> None
      | Some (caps, rest) \<Rightarrow> Some (caps, 0, length s - length rest))"
proof -
  let ?g = "\<lambda>b. case rx_match FRONTMATTER_REGEX b (drop b s) [] [] of
              None \<Rightarrow> None
            | Some (caps, rest) \<Rightarrow> Some (caps, b, length s - length rest)"
  have bol: "\<And>b u. b \<noteq> 0 \<Longrightarrow> rx_match FRONTMATTER_REGEX b u [] [] = None"
    unfolding FRONTMATTER_REGEX_def by (subst rx_match.simps(6)) simp
  have later: "\<And>b. b \<in> set [Suc 0 ..< Suc (length s)] \<Longrightarrow> ?g b = None"
  proof -
    fix b assume "b \<in> set [Suc 0 ..< Suc (length s)]"
    then have "b \<noteq> 0" by auto
    from bol[OF this] show "?g b = None" by simp
  qed
  have "[0 ..< Suc (length s)] = 0 # [Suc 0 ..< Suc (length s)]"
    by (rule upt_conv_Cons) simp
  then have "rx_exec FRONTMATTER_REGEX s 0 =
     (case ?g 0 of Some y \<Rightarrow> Some y | None \<Rightarrow> first_some ?g [Suc 0 ..< Suc (length s)])"
    by (simp only: rx_exec_def first_some.simps)
  also have "first_some ?g [Suc 0 ..< Suc (length s)] = None"
    unfolding first_some_None_iff using later by blast
  finally show ?thesis by (simp split: option.splits)
qed

lemma fm_match:
  "rx_match FRONTMATTER_REGEX 0 s [] [] = Some y \<longleftrightarrow>
   startsWith s (js ''---'') \<and>
   (\<exists>j \<le> length (takeWhile is_space (drop 3 s)).
      startsWith (drop j (drop 3 s)) [CHAR_LF] \<and>
      (\<exists>p. rx_match fm_close p (drop 1 (drop j (drop 3 s))) [] [] = Some y) \<and>
      (\<forall>j'. j < j' \<and> j' \<le> length (takeWhile is_space (drop 3 s)) \<longrightarrow>
         \<not> (startsWith (drop j' (drop 3 s)) [CHAR_LF] \<and>
            (\<exists>p. rx_match fm_close p (drop 1 (drop j' (drop 3 s))) [] [] \<noteq> None))))"
proof -
  let ?T = "drop 3 s"
  let ?n = "length (takeWhile is_space ?T)"
  let ?p = "0 + length (js ''---'')"
  let ?F = "\<lambda>j. rx_match (Lit [CHAR_LF] # fm_close) (?p + j) (drop j ?T) [] []"
  let ?q = "\<lambda>j. ?p + j + length [CHAR_LF]"
  have F: "\<And>j. ?F j = (if startsWith (drop j ?T) [CHAR_LF]
                          then rx_match fm_close (?q j) (drop 1 (drop j ?T)) [] [] else None)"
    by (simp only: rx_match.simps(2) length_Cons list.size One_nat_def)
  have l3: "length (js ''---'') = 3" by (simp add: js_def)
  have indep: "\<And>p p' t. rx_match fm_close p t [] [] = rx_match fm_close p' t [] []"
    unfolding fm_close_def by (simp del: upt_Suc cong: if_cong)
  have unf: "rx_match FRONTMATTER_REGEX 0 s [] [] =
          (if startsWith s (js ''---'') then first_some ?F (rev [0 ..< Suc ?n]) else None)"
    unfolding FRONTMATTER_REGEX_def fm_close_def
    by (simp only: rx_match.simps(6) rx_match.simps(2)[of "js ''---''"] rx_match.simps(5)
        Let_def if_True refl l3)
  have F1: "\<And>j. ?F j = Some y \<longleftrightarrow>
              startsWith (drop j ?T) [CHAR_LF] \<and>
              (\<exists>p. rx_match fm_close p (drop 1 (drop j ?T)) [] [] = Some y)"
  proof -
    fix j
    show "?F j = Some y \<longleftrightarrow>
              startsWith (drop j ?T) [CHAR_LF] \<and>
              (\<exists>p. rx_match fm_close p (drop 1 (drop j ?T)) [] [] = Some y)"
    proof (cases "startsWith (drop j ?T) [CHAR_LF]")
      case True
      then have "?F j = rx_match fm_close (?q j) (drop 1 (drop j ?T)) [] []"
        by (simp only: F if_True)
      with True show ?thesis by (metis indep)
    next
      case False
      then have "?F j = None" by (simp only: F if_False)
      with False show ?thesis by simp
    qed
  qed
  have F2: "\<And>j. ?F j = None \<longleftrightarrow>
              \<not> (startsWith (drop j ?T) [CHAR_LF] \<and>
                 (\<exists>p. rx_match fm_close p (drop 1 (drop j ?T)) [] [] \<noteq> None))"
  proof -
    fix j
    show "?F j = None \<longleftrightarrow>
              \<not> (startsWith (drop j ?T) [CHAR_LF] \<and>
                 (\<exists>p. rx_match fm_close p (drop 1 (drop j ?T)) [] [] \<noteq> None))"
    proof (cases "startsWith (drop j ?T) [CHAR_LF]")
      case True
      then have "?F j = rx_match fm_close (?q j) (drop 1 (drop j ?T)) [] []"
        by (simp only: F if_True)
      with True show ?thesis by (metis indep)
    next
      case False
      then have "?F j = None" by (simp only: F if_False)
      with False show ?thesis by simp
    qed
  qed
  show ?thesis
  proof (cases "startsWith s (js ''---'')")
    case False
    with unf show ?thesis by simp
  next
    case True
    with unf have "rx_match FRONTMATTER_REGEX 0 s [] [] = first_some ?F (rev [0 ..< Suc ?n])"
      by simp
    then have "rx_match FRONTMATTER_REGEX 0 s [] [] = Some y \<longleftrightarrow>
       (\<exists>j<Suc ?n. ?F j = Some y \<and> (\<forall>j'. j < j' \<and> j' < Suc ?n \<longrightarrow> ?F j' = None))"
      by (simp only: first_some_rev_upt)
    also have "\<dots> \<longleftrightarrow>
     (\<exists>j \<le> ?n.
        startsWith (drop j ?T) [CHAR_LF] \<and>
        (\<exists>p. rx_match fm_close p (drop 1 (drop j ?T)) [] [] = Some y) \<and>
        (\<forall>j'. j < j' \<and> j' \<le> ?n \<longrightarrow>
           \<not> (startsWith (drop j' ?T) [CHAR_LF] \<and>
              (\<exists>p. rx_match fm_close p (drop 1 (drop j' ?T)) [] [] \<noteq> None))))"
      unfolding F1 F2 less_Suc_eq_le by (simp only: conj_assoc)
    finally show ?thesis using True by simp
  qed
qed

lemma marker_facts:
  "CHAR_LF # js ''---'' \<noteq> []" "butlast (CHAR_LF # js ''---'') = CHAR_LF # js ''--''"
  "length (js ''---'') = 3" "is_space CHAR_LF"
  by (simp_all add: js_def CHAR_LF_def is_space_def)

lemma key_not_space:
  assumes "key = KEY_PUBLISHABLE \<or> key = KEY_PUBLISHED"
  shows "\<exists>c key'. key = c # key' \<and> \<not> is_space c"
  using assms by (auto simp: KEY_PUBLISHABLE_def KEY_PUBLISHED_def is_space_def)

lemma take_takeWhile_all:
  assumes "j \<le> length (takeWhile P v)"
  shows "list_all P (take j v)"
proof -
  have "take j v = take j (takeWhile P v)"
    by (metis assms takeWhile_dropWhile_id take_append diff_is_0_eq take_0 append_Nil2)
  then show ?thesis by (metis list_all_iff in_set_takeD set_takeWhileD)
qed

lemma close_list:
  "rx_match fm_close p t [] [] = Some y \<longleftrightarrow>
   (\<exists>b r. t = b @ (CHAR_LF # js ''---'') @ r \<and>
          \<not> occurs_in (CHAR_LF # js ''---'') (b @ CHAR_LF # js ''--'') \<and> y = ([b], r))"
proof -
  let ?M = "CHAR_LF # js ''---''"
  note ci = close_index[of ?M p t y, folded fm_close_def]
  show ?thesis
  proof
    assume "rx_match fm_close p t [] [] = Some y"
    with ci obtain k where k: "k \<le> length t" "startsWith (drop k t) ?M"
      "\<forall>k'<k. \<not> startsWith (drop k' t) ?M" "y = ([take k t], drop (length ?M) (drop k t))"
      by blast
    let ?b = "take k t" and ?r = "drop (length ?M) (drop k t)"
    from k(2) have "drop k t = ?M @ ?r" by (metis startsWith_def append_take_drop_id)
    then have t: "t = ?b @ ?M @ ?r" by (metis append_take_drop_id)
    have lb: "length ?b = k" using k(1) by simp
    have "\<not> occurs_in ?M (?b @ butlast ?M)"
    proof
      assume "occurs_in ?M (?b @ butlast ?M)"
      from occurs_after[OF this marker_facts(1), of ?r] obtain k' where
        "k' < length ?b" "startsWith (drop k' (?b @ ?M @ ?r)) ?M" by blast
      with t lb k(3) show False by simp
    qed
    then have "\<not> occurs_in ?M (?b @ CHAR_LF # js ''--'')" unfolding marker_facts(2) .
    with t k(4) show "\<exists>b r. t = b @ ?M @ r \<and> \<not> occurs_in ?M (b @ CHAR_LF # js ''--'') \<and> y = ([b], r)"
      by blast
  next
    assume "\<exists>b r. t = b @ ?M @ r \<and> \<not> occurs_in ?M (b @ CHAR_LF # js ''--'') \<and> y = ([b], r)"
    then obtain b r where t: "t = b @ ?M @ r" and no: "\<not> occurs_in ?M (b @ butlast ?M)"
      and y: "y = ([b], r)" unfolding marker_facts(2) by blast
    have 1: "length b \<le> length t" using t by simp
    have d: "drop (length b) t = ?M @ r" unfolding t by simp
    then have 2: "startsWith (drop (length b) t) ?M" unfolding startsWith_iff by blast
    have 3: "\<forall>k'<length b. \<not> startsWith (drop k' t) ?M"
      using occurs_before[of _ b ?M r, OF _ _ marker_facts(1)] no t by blast
    have 4: "y = ([take (length b) t], drop (length ?M) (drop (length b) t))"
      unfolding d y unfolding t by simp
    from 1 2 3 4 ci show "rx_match fm_close p t [] [] = Some y" by blast
  qed
qed

lemma first_close_unique:
  assumes "t = b1 @ M @ r1" "t = b2 @ M @ r2" "M \<noteq> []"
    and "\<not> occurs_in M (b1 @ butlast M)" "\<not> occurs_in M (b2 @ butlast M)"
  shows "b1 = b2"
proof -
  have s1: "startsWith (drop (length b1) t) M" unfolding assms(1) by (simp add: startsWith_def)
  have s2: "startsWith (drop (length b2) t) M" unfolding assms(2) by (simp add: startsWith_def)
  have "\<not> length b1 < length b2"
    using occurs_before[of "length b1" b2 M r2] s1 assms(2,3,5) by auto
  moreover have "\<not> length b2 < length b1"
    using occurs_before[of "length b2" b1 M r1] s2 assms(1,3,4) by auto
  ultimately have "length b1 = length b2" by simp
  with assms(1,2) show ?thesis by (metis append_eq_append_conv)
qed

lemma occurs_in_suffix: "occurs_in M v \<Longrightarrow> occurs_in M (u @ v)"
  unfolding occurs_in_def by (metis append_assoc)

lemma has_frontmatter_unfold:
  "hasPublishableFrontmatter s \<longleftrightarrow>
   (\<exists>caps rest. rx_match FRONTMATTER_REGEX 0 s [] [] = Some (caps, rest) \<and> sets_true (caps ! 0))"
  unfolding hasPublishableFrontmatter_def fm_exec publishable_test_iff
  by (cases "rx_match FRONTMATTER_REGEX 0 s [] []") auto

lemma frontmatter_sound:
  assumes "rx_match FRONTMATTER_REGEX 0 s [] [] = Some (caps, rest)"
  shows "\<exists>block. caps = [block] \<and> header_block s block"
proof -
  let ?T = "drop 3 s"
  let ?M = "CHAR_LF # js ''---''"
  from assms obtain j p where sw: "startsWith s (js ''---'')"
    and j: "j \<le> length (takeWhile is_space ?T)"
    and lf: "startsWith (drop j ?T) [CHAR_LF]"
    and cl: "rx_match fm_close p (drop 1 (drop j ?T)) [] [] = Some (caps, rest)"
    unfolding fm_match by blast
  from cl obtain b where t: "drop 1 (drop j ?T) = b @ ?M @ rest"
    and no: "\<not> occurs_in ?M (b @ CHAR_LF # js ''--'')" and caps: "caps = [b]"
    unfolding close_list by blast
  from sw have s: "s = js ''---'' @ ?T"
    by (metis startsWith_def append_take_drop_id marker_facts(3))
  from lf have "drop j ?T = [CHAR_LF] @ drop 1 (drop j ?T)"
    by (metis startsWith_def append_take_drop_id length_Cons list.size(3) One_nat_def)
  with t have "?T = take j ?T @ [CHAR_LF] @ b @ ?M @ rest"
    by (metis append_take_drop_id)
  with s have "s = js ''---'' @ take j ?T @ [CHAR_LF] @ b @ [CHAR_LF] @ js ''---'' @ rest"
    by simp
  moreover have "list_all is_space (take j ?T)" by (rule take_takeWhile_all[OF j])
  ultimately have "header_block s b" unfolding header_block_def using no by blast
  with caps show ?thesis by blast
qed

lemma frontmatter_complete:
  assumes hb: "header_block s block" and st: "sets_true block"
  shows "\<exists>caps rest. rx_match FRONTMATTER_REGEX 0 s [] [] = Some (caps, rest) \<and> sets_true (caps ! 0)"
proof -
  let ?M = "CHAR_LF # js ''---''"
  define T where "T = drop 3 s"
  define n where "n = length (takeWhile is_space T)"
  from hb obtain ws rest0 where s: "s = js ''---'' @ ws @ [CHAR_LF] @ block @ [CHAR_LF] @ js ''---'' @ rest0"
    and ws: "list_all is_space ws" and no: "\<not> occurs_in ?M (block @ CHAR_LF # js ''--'')"
    unfolding header_block_def by blast
  define u where "u = block @ ?M @ rest0"
  have sw: "startsWith s (js ''---'')" unfolding s by (simp add: startsWith_def)
  have T: "T = ws @ CHAR_LF # u" unfolding T_def u_def s by (simp add: marker_facts(3))
  define j0 where "j0 = length ws"
  have tw: "takeWhile is_space T = ws @ CHAR_LF # takeWhile is_space u"
    unfolding T using ws marker_facts(4) by (simp add: list_all_iff)
  then have j0n: "j0 < n" unfolding n_def j0_def by simp
  have spaces: "\<And>i. i < n \<Longrightarrow> is_space (T ! i)"
    unfolding n_def by (metis nth_mem set_takeWhileD takeWhile_nth)
  define G where "G = (\<lambda>j. startsWith (drop j T) [CHAR_LF] \<and>
                (\<exists>p. rx_match fm_close p (drop 1 (drop j T)) [] [] \<noteq> None))"
  have d0: "drop 1 (drop j0 T) = u" unfolding T j0_def by simp
  have c0: "rx_match fm_close 0 u [] [] = Some ([block], rest0)"
    unfolding close_list u_def using no by blast
  have "startsWith (drop j0 T) [CHAR_LF]" unfolding T j0_def by (simp add: startsWith_def)
  with d0 c0 j0n have G0: "j0 \<le> n \<and> G j0" unfolding G_def by auto
  have "\<exists>j. (j \<le> n \<and> G j) \<and> (\<forall>j'. (j' \<le> n \<and> G j') \<longrightarrow> j' \<le> j)"
    by (rule Nat.ex_has_greatest_nat[of "\<lambda>j. j \<le> n \<and> G j" j0 n, OF G0]) simp
  then obtain j where jn: "j \<le> n" and Gj: "G j"
    and mx: "\<And>j'. j' \<le> n \<Longrightarrow> G j' \<Longrightarrow> j' \<le> j" by blast
  from mx[of j0] G0 have j0j: "j0 \<le> j" by blast
  from Gj obtain p y where lf: "startsWith (drop j T) [CHAR_LF]"
    and cl: "rx_match fm_close p (drop 1 (drop j T)) [] [] = Some y" unfolding G_def by auto
  have later: "\<forall>j'. j < j' \<and> j' \<le> n \<longrightarrow> \<not> G j'"
    using mx by (meson not_less)
  from sw jn lf cl later have m: "rx_match FRONTMATTER_REGEX 0 s [] [] = Some y"
    unfolding fm_match G_def n_def T_def by blast
  from cl obtain b r where tj: "drop 1 (drop j T) = b @ ?M @ r"
    and nob: "\<not> occurs_in ?M (b @ CHAR_LF # js ''--'')" and y: "y = ([b], r)"
    unfolding close_list by blast
  from lf obtain v where dj: "drop j T = CHAR_LF # v" unfolding startsWith_iff by auto
  then have jl: "j < length T" by (metis drop_all list.distinct(1) not_less)
  from dj have Tj: "T ! j = CHAR_LF" by (metis nth_via_drop)
  have "j \<noteq> n"
  proof
    assume e: "j = n"
    with jl have "\<not> is_space (T ! n)" unfolding n_def using nth_length_takeWhile by blast
    with e Tj marker_facts(4) show False by simp
  qed
  with jn have jlt: "j < n" by simp
  define d where "d = j - j0"
  have "drop (Suc j) T = drop d (drop (Suc j0) T)" unfolding d_def using j0j by simp
  also have "drop (Suc j0) T = u" unfolding T j0_def by simp
  finally have tj2: "drop 1 (drop j T) = drop d u" by simp
  have usp: "\<And>i. i < d \<Longrightarrow> is_space (u ! i)"
  proof -
    fix i assume i: "i < d"
    then have "Suc j0 + i < n" unfolding d_def using jlt by linarith
    from spaces[OF this] show "is_space (u ! i)"
      unfolding T j0_def by (simp add: nth_append)
  qed
  from st obtain pre key s1 s2 post where
    blk: "block = pre @ key @ s1 @ js '':'' @ s2 @ js ''true'' @ post"
    and key: "key = KEY_PUBLISHABLE \<or> key = KEY_PUBLISHED"
    and sp: "list_all is_space s1" "list_all is_space s2"
    unfolding sets_true_def by blast
  from key_not_space[OF key] obtain c key' where k: "key = c # key'" "\<not> is_space c" by blast
  have "u ! length pre = c" unfolding u_def blk k by (simp add: nth_append)
  with usp[of "length pre"] k(2) have dpre: "d \<le> length pre" by (meson not_less)
  then have dblk: "drop d u = drop d block @ ?M @ rest0" unfolding u_def blk by simp
  have nod: "\<not> occurs_in ?M (drop d block @ butlast ?M)"
  proof
    assume "occurs_in ?M (drop d block @ butlast ?M)"
    then have "occurs_in ?M (take d block @ (drop d block @ butlast ?M))"
      by (rule occurs_in_suffix)
    then have "occurs_in ?M (block @ butlast ?M)"
      by (simp only: append_assoc[symmetric] append_take_drop_id)
    with no show False unfolding marker_facts(2) by blast
  qed
  from nob have nob': "\<not> occurs_in ?M (b @ butlast ?M)" unfolding marker_facts(2) .
  from tj tj2 have e1: "drop d u = b @ ?M @ r" by simp
  from first_close_unique[OF e1 dblk marker_facts(1) nob' nod] have "b = drop d block" .
  also have "\<dots> = drop d pre @ key @ s1 @ js '':'' @ s2 @ js ''true'' @ post"
    unfolding blk using dpre by simp
  finally have "sets_true b" unfolding sets_true_def using key sp by blast
  with m y show ?thesis by simp
qed

lemma hasPublishableFrontmatter_iff:
  "hasPublishableFrontmatter text \<longleftrightarrow> (\<exists>block. header_block text block \<and> sets_true block)"
proof
  assume "hasPublishableFrontmatter text"
  then obtain caps rest where m: "rx_match FRONTMATTER_REGEX 0 text [] [] = Some (caps, rest)"
    and st: "sets_true (caps ! 0)" unfolding has_frontmatter_unfold by blast
  from frontmatter_sound[OF m] obtain block where "caps = [block]" "header_block text block"
    by blast
  with st show "\<exists>block. header_block text block \<and> sets_true block" by auto
next
  assume "\<exists>block. header_block text block \<and> sets_true block"
  then obtain block where "header_block text block" "sets_true block" by blast
  from frontmatter_complete[OF this] show "hasPublishableFrontmatter text"
    unfolding has_frontmatter_unfold .
qed

text \<open>
  C6. The claim is that a text is publishable exactly if it begins with a header block,
  opened by a marker line at its very start and closed by a marker line, and a line of
  that block sets one of the two keys to true. In \<open>blank_header_note\<close> the header block is
  one empty line and sets nothing; the key stands in the body, followed by a rule. The
  \<^verbatim>\<open>\s*\<close> of the first expression runs over the line feed of the empty line, so the group
  starts at the closing marker, ends before the rule, and holds the key: the filter
  publishes the note.
\<close>

theorem C6_blank_header_published:
  "hasPublishableFrontmatter blank_header_note \<and>
   \<not> claimed_publishable blank_header_note \<and>
   rx_exec FRONTMATTER_REGEX blank_header_note 0 =
     Some ([js ''---'' @ [CHAR_LF] @ KEY_PUBLISHABLE @ js '': true''], 0, 22)"
  by code_simp

end
